theory Spec2Isabelle
  imports Main "HOL-Library.Word"
begin

unbundle bit_operations_syntax

section \<open>Machine types\<close>

text \<open>
  A data member \<open>x_\<close> of a class of the source is the field \<open>x_'\<close> of the record here.

  The stress tool is C++ on a 64-bit platform. A \<open>uint32_t\<close> (and \<open>unsigned int\<close>) is a
  \<open>32 word\<close>; an \<open>int\<close> is kept as its 32-bit two's complement pattern and read with
  \<open>sint\<close>; a \<open>long\<close> is a 64-bit pattern read with \<open>sint\<close>. A \<open>size_t\<close> that only
  ever holds a value converted from a \<open>uint32_t\<close> is a \<open>nat\<close>. Counters that the code
  only increments by one from zero are \<open>int\<close> or \<open>nat\<close>.
\<close>

type_synonym byte = "8 word"
type_synonym bytes = "byte list"
type_synonym uint32 = "32 word"
type_synonym int32 = "32 word"
type_synonym long = "64 word"

section \<open>Key codec\<close>

text \<open>
  Modelled from the spec: \<open>PutFixed64\<close> (declared in util/coding.h, which is not among the
  sources) appends the fixed-width encoding of a 64-bit value to a string. \<open>Key\<close> names its
  result \<open>little_endian_key\<close> and reverses it to obtain what its comment and the spec call
  the big-endian key, so the encoding is the eight bytes of the value, least significant first.
\<close>

fun fixed_le :: "nat \<Rightarrow> 64 word \<Rightarrow> bytes" where
  "fixed_le 0 w = []"
| "fixed_le (Suc n) w = ucast w # fixed_le n (drop_bit 8 w)"

definition PutFixed64 :: "bytes \<Rightarrow> 64 word \<Rightarrow> bytes" where
  "PutFixed64 dst val = dst @ fixed_le 8 val"

text \<open>
  \<open>Key(long val)\<close>: the loop \<open>big_endian_key[i] = little_endian_key[sizeof(val) - 1 - i]\<close>
  for \<open>i = 0 .. 7\<close>.
\<close>

definition Key :: "long \<Rightarrow> bytes" where
  "Key val =
     (let little_endian_key = PutFixed64 [] val
      in map (\<lambda>i. little_endian_key ! (8 - 1 - i)) [0..<8])"

section \<open>Value generator\<close>

text \<open>
  \<open>*((uint32_t* )v) = rand\<close> stores the four bytes of \<open>rand\<close> in the byte order of the
  host, which is a parameter of the model.
\<close>

datatype endian = LittleEndian | BigEndian

definition u32_bytes :: "endian \<Rightarrow> uint32 \<Rightarrow> bytes" where
  "u32_bytes e w =
     (let le = [ucast w, ucast (drop_bit 8 w), ucast (drop_bit 16 w), ucast (drop_bit 24 w)]
      in case e of LittleEndian \<Rightarrow> le | BigEndian \<Rightarrow> rev le)"

text \<open>
  A write through the \<open>char*\<close> is checked against the real extent of the buffer it points
  into: a write outside it is undefined behaviour in C++ and is the value \<open>None\<close> here.
\<close>

definition store_byte :: "bytes \<Rightarrow> nat \<Rightarrow> byte \<Rightarrow> bytes option" where
  "store_byte v i b = (if i < length v then Some (v[i := b]) else None)"

fun store_bytes :: "bytes \<Rightarrow> nat \<Rightarrow> bytes \<Rightarrow> bytes option" where
  "store_bytes v i [] = Some v"
| "store_bytes v i (b # bs) =
     (case store_byte v i b of None \<Rightarrow> None | Some v' \<Rightarrow> store_bytes v' (Suc i) bs)"

text \<open>
  \<open>(char)(rand ^ i)\<close> with \<open>i\<close> a \<open>size_t\<close>: \<open>rand\<close> is widened to 64 bits, the
  exclusive or is taken there, and the result is cut to its low eight bits.
\<close>

definition value_byte :: "uint32 \<Rightarrow> nat \<Rightarrow> byte" where
  "value_byte rand i = ucast ((ucast rand :: 64 word) XOR word_of_nat i)"

text \<open>The loop \<open>for (size_t i = sizeof(uint32_t); i < value_sz; i++) v[i] = (char)(rand ^ i)\<close>.\<close>

function fill_value :: "uint32 \<Rightarrow> nat \<Rightarrow> nat \<Rightarrow> bytes \<Rightarrow> bytes option" where
  "fill_value rand i value_sz v =
     (if i < value_sz
      then (case store_byte v i (value_byte rand i) of
              None \<Rightarrow> None
            | Some v' \<Rightarrow> fill_value rand (Suc i) value_sz v')
      else Some v)"
  by pat_completeness auto
termination
  by (relation "measure (\<lambda>(rand, i, value_sz, v). value_sz - i)") auto

declare fill_value.simps [simp del]

text \<open>
  \<open>GenerateValue(rand, v, max_sz)\<close> with the flag \<open>FLAGS_value_size_mult\<close> it reads. The
  product \<open>((rand % 3) + 1) * FLAGS_value_size_mult\<close> has operands \<open>uint32_t\<close> and
  \<open>int\<close>, so the \<open>int\<close> is converted to \<open>unsigned\<close> and the product is taken modulo
  \<open>2 ^ 32\<close> before it becomes a \<open>size_t\<close>. The result is the failed assertion, a write
  outside the buffer \<open>v\<close>, or the returned size with the buffer as it was left.
\<close>

datatype gv_result = AssertionFailed | OutOfBounds | Generated nat bytes

definition GenerateValue :: "endian \<Rightarrow> int32 \<Rightarrow> uint32 \<Rightarrow> bytes \<Rightarrow> nat \<Rightarrow> gv_result" where
  "GenerateValue host FLAGS_value_size_mult rand v max_sz =
     (let value_sz = unat ((rand mod 3 + 1) * FLAGS_value_size_mult) in
      if \<not> (value_sz \<le> max_sz \<and> value_sz \<ge> 4) then AssertionFailed
      else case store_bytes v 0 (u32_bytes host rand) of
             None \<Rightarrow> OutOfBounds
           | Some v1 \<Rightarrow>
               (case fill_value rand 4 value_sz v1 of
                  None \<Rightarrow> OutOfBounds
                | Some v2 \<Rightarrow>
                    (case store_byte v2 value_sz 0 of
                       None \<Rightarrow> OutOfBounds
                     | Some v3 \<Rightarrow> Generated value_sz v3)))"

definition gv_length :: "gv_result \<Rightarrow> nat option" where
  "gv_length r = (case r of Generated sz v \<Rightarrow> Some sz | _ \<Rightarrow> None)"

section \<open>Stats\<close>

text \<open>
  The counters of \<open>class Stats\<close>. Times are microsecond readings of the clock; \<open>hist_\<close>
  is the list of samples added to the histogram. What \<open>fprintf(stdout, ...)\<close> prints is
  kept as a list of lines, each with the values its format string shows:
  \<open>"long op: %.1f micros"\<close> and \<open>"... finished %ld ops"\<close>.
\<close>

datatype stdout_line = LongOp int | is_progress: FinishedOps int

record Stats =
  start_' :: int
  finish_' :: int
  done_' :: int
  gets_' :: int
  prefixes_' :: int
  writes_' :: int
  deletes_' :: int
  iterator_size_sums_' :: int
  founds_' :: int
  errors_' :: int
  next_report_' :: int
  bytes_' :: int
  last_op_finish_' :: int
  hist_' :: "int list"

definition Start :: "int \<Rightarrow> Stats \<Rightarrow> Stats" where
  "Start now s =
     s\<lparr> next_report_' := 100, hist_' := [], done_' := 0, gets_' := 0, prefixes_' := 0,
        writes_' := 0, deletes_' := 0, iterator_size_sums_' := 0, founds_' := 0, errors_' := 0,
        bytes_' := 0, start_' := now, last_op_finish_' := now, finish_' := now \<rparr>"

text \<open>
  \<open>next_report_\<close> is an \<open>int\<close>: an addition that leaves the range of \<open>int\<close> is
  undefined behaviour, the value \<open>None\<close> here.
\<close>

definition add_int :: "int \<Rightarrow> int \<Rightarrow> int option" where
  "add_int a b = (if a + b \<le> 2147483647 then Some (a + b) else None)"

definition next_threshold :: "int \<Rightarrow> int option" where
  "next_threshold next_report =
     (if next_report < 1000 then add_int next_report 100
      else if next_report < 5000 then add_int next_report 500
      else if next_report < 10000 then add_int next_report 1000
      else if next_report < 50000 then add_int next_report 5000
      else if next_report < 100000 then add_int next_report 10000
      else if next_report < 500000 then add_int next_report 50000
      else add_int next_report 100000)"

definition FinishedSingleOp ::
  "bool \<Rightarrow> int \<Rightarrow> Stats \<times> stdout_line list \<Rightarrow> (Stats \<times> stdout_line list) option" where
  "FinishedSingleOp FLAGS_histogram now st =
     (let (s, out) = st;
          (s1, out1) =
            (if FLAGS_histogram
             then (let micros = now - last_op_finish_' s
                   in (s\<lparr> hist_' := hist_' s @ [micros], last_op_finish_' := now \<rparr>,
                       if micros > 20000 then out @ [LongOp micros] else out))
             else (s, out));
          s2 = s1\<lparr> done_' := done_' s1 + 1 \<rparr>
      in if done_' s2 \<ge> next_report_' s2
         then (case next_threshold (next_report_' s2) of
                 None \<Rightarrow> None
               | Some n \<Rightarrow> Some (s2\<lparr> next_report_' := n \<rparr>, out1 @ [FinishedOps (done_' s2)]))
         else Some (s2, out1))"

definition AddBytesForWrites :: "int \<Rightarrow> int \<Rightarrow> Stats \<Rightarrow> Stats" where
  "AddBytesForWrites nwrites nbytes s =
     s\<lparr> writes_' := writes_' s + nwrites, bytes_' := bytes_' s + nbytes \<rparr>"

definition AddErrors :: "int \<Rightarrow> Stats \<Rightarrow> Stats" where
  "AddErrors n s = s\<lparr> errors_' := errors_' s + n \<rparr>"

text \<open>
  A thread that has called \<open>Start\<close> and then \<open>FinishedSingleOp\<close> \<open>n\<close> times, the clock
  reading \<open>clock k\<close> at the \<open>k\<close>-th call.
\<close>

fun finished_ops ::
  "bool \<Rightarrow> (nat \<Rightarrow> int) \<Rightarrow> Stats \<Rightarrow> nat \<Rightarrow> (Stats \<times> stdout_line list) option" where
  "finished_ops h clock s0 0 = Some (Start (clock 0) s0, [])"
| "finished_ops h clock s0 (Suc n) =
     (case finished_ops h clock s0 n of
        None \<Rightarrow> None
      | Some st \<Rightarrow> FinishedSingleOp h (clock (Suc n)) st)"

text \<open>A thread's statistics before \<open>Start\<close>, and a clock that stands still.\<close>

definition no_stats :: Stats where
  "no_stats =
     \<lparr> start_' = 0, finish_' = 0, done_' = 0, gets_' = 0, prefixes_' = 0, writes_' = 0,
       deletes_' = 0, iterator_size_sums_' = 0, founds_' = 0, errors_' = 0, next_report_' = 0,
       bytes_' = 0, last_op_finish_' = 0, hist_' = [] \<rparr>"

definition no_clock :: "nat \<Rightarrow> int" where
  "no_clock k = 0"

text \<open>
  The schedule in the words of the specification: bump sizes 100, 500, 1000, 5000, 10000,
  50000, 100000, the bump size changing at op counts 100, 500, 1000, 5000, 10000, 50000,
  100000.
\<close>

definition spec_bump :: "int \<Rightarrow> int" where
  "spec_bump ops =
     (if ops < 500 then 100
      else if ops < 1000 then 500
      else if ops < 5000 then 1000
      else if ops < 10000 then 5000
      else if ops < 50000 then 10000
      else if ops < 100000 then 50000
      else 100000)"

section \<open>Shared state\<close>

definition SENTINEL :: uint32 where
  "SENTINEL = 0xffffffff"

text \<open>
  \<open>class SharedState\<close>. \<open>values_\<close> is the array \<open>new uint32_t[max_key_]\<close>, the empty
  list when the constructor leaves the pointer null; \<open>num_locks_\<close> is the length of
  \<open>key_locks_\<close>.
\<close>

record SharedState =
  seed_' :: uint32
  max_key_' :: int
  log2_keys_per_lock_' :: nat
  num_threads_' :: int
  num_initialized_' :: int
  num_populated_' :: int
  vote_reopen_' :: int
  num_done_' :: int
  start_flag_' :: bool
  start_verify_' :: bool
  values_' :: "uint32 list"
  num_locks_' :: int

definition new_SharedState :: "uint32 \<Rightarrow> int \<Rightarrow> nat \<Rightarrow> int \<Rightarrow> bool \<Rightarrow> SharedState" where
  "new_SharedState FLAGS_seed FLAGS_max_key FLAGS_log2_keys_per_lock FLAGS_threads
       FLAGS_test_batches_snapshots =
     \<lparr> seed_' = FLAGS_seed, max_key_' = FLAGS_max_key,
       log2_keys_per_lock_' = FLAGS_log2_keys_per_lock, num_threads_' = FLAGS_threads,
       num_initialized_' = 0, num_populated_' = 0, vote_reopen_' = 0, num_done_' = 0,
       start_flag_' = False, start_verify_' = False,
       values_' = (if FLAGS_test_batches_snapshots then []
                  else replicate (nat FLAGS_max_key) SENTINEL),
       num_locks_' = (if FLAGS_test_batches_snapshots then 0
                     else FLAGS_max_key div 2 ^ FLAGS_log2_keys_per_lock +
                          (if FLAGS_max_key mod 2 ^ FLAGS_log2_keys_per_lock \<noteq> 0 then 1 else 0)) \<rparr>"

text \<open>
  The remainder of C++, which truncates the quotient towards zero. Division by zero is
  undefined behaviour, the value \<open>None\<close>.
\<close>

definition c_rem :: "int \<Rightarrow> int \<Rightarrow> int option" where
  "c_rem a b = (if b = 0 then None else Some (a - b * (sgn a * sgn b * (\<bar>a\<bar> div \<bar>b\<bar>))))"

definition IncVotedReopen :: "SharedState \<Rightarrow> SharedState option" where
  "IncVotedReopen s =
     (case c_rem (vote_reopen_' s + 1) (num_threads_' s) of
        None \<Rightarrow> None
      | Some v \<Rightarrow> Some (s\<lparr> vote_reopen_' := v \<rparr>))"

definition AllVotedReopen :: "SharedState \<Rightarrow> bool" where
  "AllVotedReopen s = (vote_reopen_' s = 0)"


text \<open>\<open>Get(long key)\<close> reads \<open>values_[key]\<close>.\<close>

definition Get :: "SharedState \<Rightarrow> long \<Rightarrow> uint32" where
  "Get s key = values_' s ! nat (sint key)"

section \<open>Database calls\<close>

text \<open>
  The storage engine is outside the tool. What the tool sees of it is the status of each
  call and the value a successful \<open>Get\<close> stores through its out-parameter; what the engine
  sees of the tool is the sequence of calls, kept in \<open>db_trace\<close>.
\<close>

datatype Status = OK | NotFound | Corruption | NotSupported | InvalidArgument | IOError

definition ok :: "Status \<Rightarrow> bool" where
  "ok s = (s = OK)"

datatype batch_op = BatchPut bytes bytes | BatchMerge bytes bytes | BatchDelete bytes

datatype db_call = CallGet bytes | CallWrite "batch_op list"

record DB =
  db_get :: "bytes \<Rightarrow> Status \<times> bytes"
  db_write :: "batch_op list \<Rightarrow> Status"
  db_trace :: "db_call list"

definition DB_Get :: "DB \<Rightarrow> bytes \<Rightarrow> bytes \<Rightarrow> Status \<times> bytes \<times> DB" where
  "DB_Get db k value_from_db =
     (let (s, v) = db_get db k
      in (s, if ok s then v else value_from_db, db\<lparr> db_trace := db_trace db @ [CallGet k] \<rparr>))"

definition DB_Write :: "DB \<Rightarrow> batch_op list \<Rightarrow> Status \<times> DB" where
  "DB_Write db batch = (db_write db batch, db\<lparr> db_trace := db_trace db @ [CallWrite batch] \<rparr>)"

section \<open>Verifier\<close>

text \<open>
  How a call ends: it returns, the process exits with a status after printing to stderr, or
  the process is lost to a failed assertion or a write outside a buffer. The line
  \<open>"Verification failed for key %ld: %s\n"\<close> is kept as the key and the message it shows.
\<close>

datatype stderr_line = VerificationFailed int string | MultiPutError string

datatype 'a outcome = Returned 'a | Exited int stderr_line | Crashed

definition VerificationAbort :: "string \<Rightarrow> long \<Rightarrow> 'a outcome" where
  "VerificationAbort msg key = Exited 1 (VerificationFailed (sint key) msg)"

text \<open>
  \<open>VerifyValue(key, opts, shared, value_from_db, strict)\<close>. \<open>stack_value\<close> is what the
  local \<open>char value[100]\<close> holds on entry; \<open>sizeof(value)\<close> is 100. The comparison
  \<open>memcmp(value_from_db->data(), value, sz) != 0\<close> is the inequality of the first \<open>sz\<close>
  bytes of the two buffers.
\<close>

definition VerifyValue ::
  "endian \<Rightarrow> int32 \<Rightarrow> bytes \<Rightarrow> DB \<Rightarrow> SharedState \<Rightarrow> long \<Rightarrow> bytes \<Rightarrow> bool
     \<Rightarrow> (DB \<times> bytes) outcome" where
  "VerifyValue host FLAGS_value_size_mult stack_value db shared key value_from_db strict =
     (let k = Key key;
          value_base = Get shared key
      in if value_base = SENTINEL \<and> \<not> strict then Returned (db, value_from_db)
         else
           (let (s, from_db, db') = DB_Get db k value_from_db
            in if ok s
               then (if value_base = SENTINEL
                     then VerificationAbort ''Unexpected value found'' key
                     else (case GenerateValue host FLAGS_value_size_mult value_base stack_value 100 of
                             Generated sz v \<Rightarrow>
                               if length from_db \<noteq> sz
                               then VerificationAbort ''Length of value read is not equal'' key
                               else if take sz from_db \<noteq> take sz v
                               then VerificationAbort ''Contents of value read don't match'' key
                               else Returned (db', from_db)
                           | _ \<Rightarrow> Crashed))
               else (if value_base \<noteq> SENTINEL
                     then VerificationAbort ''Value not found'' key
                     else Returned (db', from_db))))"

section \<open>Batch mode\<close>

definition lane_digits :: "bytes list" where
  "lane_digits = map (\<lambda>c. [of_char c]) ''9876543210''"

text \<open>
  \<open>MultiPut(thread, writeoptions, key, value, sz)\<close>: the arrays \<open>keys\<close> and \<open>values\<close>
  start as the ten one-character strings \<open>"9"\<close> down to \<open>"0"\<close>; the loop appends the key
  and the value to the \<open>i\<close>-th of each and adds one step to the batch.
\<close>

definition MultiPut_step :: "bool \<Rightarrow> bytes \<Rightarrow> bytes \<Rightarrow> batch_op list \<Rightarrow> nat \<Rightarrow> batch_op list" where
  "MultiPut_step FLAGS_use_merge_put key val batch i =
     (let keys_i = lane_digits ! i @ key;
          values_i = lane_digits ! i @ val
      in if FLAGS_use_merge_put then batch @ [BatchMerge keys_i values_i]
         else batch @ [BatchPut keys_i values_i])"

definition MultiPut ::
  "bool \<Rightarrow> (Status \<Rightarrow> string) \<Rightarrow> DB \<Rightarrow> Stats \<Rightarrow> bytes \<Rightarrow> bytes \<Rightarrow> nat
     \<Rightarrow> Status \<times> DB \<times> Stats \<times> stderr_line list" where
  "MultiPut FLAGS_use_merge_put ToString db stats key val sz =
     (let batch = foldl (MultiPut_step FLAGS_use_merge_put key val) [] [0..<10];
          (s, db') = DB_Write db batch
      in if \<not> ok s
         then (s, db', AddErrors 1 stats, [MultiPutError (ToString s)])
         else (s, db', AddBytesForWrites 10 ((int sz + 1) * 10) stats, []))"

section \<open>Workload driver\<close>

datatype op_kind = OpRead | OpPrefix | OpWrite | OpDelete

text \<open>
  The four tests of one iteration of the loop of \<open>OperateDb\<close> on the draw \<open>prob_op\<close>, an
  \<open>int\<close>: each is \<open>prob_op >= 0 && prob_op < (int)FLAGS_...percent\<close>, followed by
  \<open>prob_op -= FLAGS_...percent\<close>. The result lists the branches whose body runs.
\<close>

definition in_range :: "int32 \<Rightarrow> uint32 \<Rightarrow> bool" where
  "in_range prob_op percent = (0 \<le>s prob_op \<and> prob_op <s percent)"

definition OperateDb_branches :: "uint32 \<Rightarrow> uint32 \<Rightarrow> uint32 \<Rightarrow> uint32 \<Rightarrow> int32 \<Rightarrow> op_kind list" where
  "OperateDb_branches FLAGS_readpercent FLAGS_prefixpercent FLAGS_writepercent FLAGS_delpercent
       prob_op =
     (let p0 = prob_op;
          r = (if in_range p0 FLAGS_readpercent then [OpRead] else []);
          p1 = p0 - FLAGS_readpercent;
          pf = (if in_range p1 FLAGS_prefixpercent then [OpPrefix] else []);
          p2 = p1 - FLAGS_prefixpercent;
          w = (if in_range p2 FLAGS_writepercent then [OpWrite] else []);
          p3 = p2 - FLAGS_writepercent;
          d = (if in_range p3 FLAGS_delpercent then [OpDelete] else [])
      in r @ pf @ w @ d)"

text \<open>
  The test at the head of the loop body, \<open>i != 0 && (i % (FLAGS_ops_per_thread /
  (FLAGS_reopen + 1))) == 0\<close>, for the loop counter \<open>i\<close> below \<open>FLAGS_ops_per_thread\<close>. The
  quotient is taken in \<open>unsigned\<close>; a zero divisor in either place is undefined behaviour,
  the value \<open>None\<close>.
\<close>

definition votes_at :: "uint32 \<Rightarrow> int32 \<Rightarrow> nat \<Rightarrow> bool option" where
  "votes_at FLAGS_ops_per_thread FLAGS_reopen i =
     (if FLAGS_reopen + 1 = 0 then None
      else (let chunk = unat (FLAGS_ops_per_thread div (FLAGS_reopen + 1))
            in if i = 0 then Some False
               else if chunk = 0 then None
               else Some (i mod chunk = 0)))"

text \<open>The iterations of \<open>for (long i = 0; i < FLAGS_ops_per_thread; i++)\<close> at which a thread votes.\<close>

definition vote_indices :: "uint32 \<Rightarrow> int32 \<Rightarrow> nat list" where
  "vote_indices FLAGS_ops_per_thread FLAGS_reopen =
     filter (\<lambda>i. votes_at FLAGS_ops_per_thread FLAGS_reopen i = Some True)
       [0..<unat FLAGS_ops_per_thread]"

text \<open>
  The voting block under the mutex: \<open>IncVotedReopen\<close>, then \<open>Reopen\<close> when
  \<open>AllVotedReopen\<close> holds. \<open>Reopen\<close> adds one to \<open>num_times_reopened_\<close>, the second
  component here.
\<close>

definition vote :: "SharedState \<times> int \<Rightarrow> (SharedState \<times> int) option" where
  "vote st =
     (let (shared, num_times_reopened) = st
      in case IncVotedReopen shared of
           None \<Rightarrow> None
         | Some shared' \<Rightarrow>
             Some (shared', if AllVotedReopen shared' then num_times_reopened + 1
                            else num_times_reopened))"

fun votes :: "nat \<Rightarrow> SharedState \<times> int \<Rightarrow> (SharedState \<times> int) option" where
  "votes 0 st = Some st"
| "votes (Suc n) st = (case votes n st of None \<Rightarrow> None | Some st' \<Rightarrow> vote st')"

text \<open>
  A whole run: every one of the \<open>FLAGS_threads\<close> threads runs the loop and votes at each of
  its vote indices; the votes are serialised by the mutex, in whatever order. The result is
  the number of times the database was reopened.
\<close>

definition reopen_events :: "int \<Rightarrow> uint32 \<Rightarrow> int32 \<Rightarrow> int option" where
  "reopen_events FLAGS_threads FLAGS_ops_per_thread FLAGS_reopen =
     map_option snd
       (votes (nat FLAGS_threads * length (vote_indices FLAGS_ops_per_thread FLAGS_reopen))
          (new_SharedState 0 0 0 FLAGS_threads True, 0))"

section \<open>Startup validation\<close>

datatype config_error = InvalidFlag | PercentsNot100 | ReopenWithoutWAL | ReopensNotBelowOps

datatype startup = StartupExit int config_error | RunStressTest

text \<open>
  The three checks of \<open>main\<close> between the parsing of the flags and
  \<open>leveldb::StressTest stress; stress.Run()\<close>.
\<close>

definition validate_flags ::
  "uint32 \<Rightarrow> uint32 \<Rightarrow> uint32 \<Rightarrow> uint32 \<Rightarrow> bool \<Rightarrow> int32 \<Rightarrow> uint32 \<Rightarrow> startup" where
  "validate_flags FLAGS_readpercent FLAGS_prefixpercent FLAGS_writepercent FLAGS_delpercent
       FLAGS_disable_wal FLAGS_reopen FLAGS_ops_per_thread =
     (if FLAGS_readpercent + FLAGS_prefixpercent + FLAGS_writepercent + FLAGS_delpercent \<noteq> 100
      then StartupExit 1 PercentsNot100
      else if FLAGS_disable_wal \<and> 0 <s FLAGS_reopen
      then StartupExit 1 ReopenWithoutWAL
      else if FLAGS_reopen \<ge> FLAGS_ops_per_thread
      then StartupExit 1 ReopensNotBelowOps
      else RunStressTest)"

text \<open>
  The flags these checks read, the flag \<open>FLAGS_x\<close> of the source as the field
  \<open>flag_x\<close>, with their initial values.
\<close>

record Flags =
  flag_readpercent :: uint32
  flag_prefixpercent :: uint32
  flag_writepercent :: uint32
  flag_delpercent :: uint32
  flag_disable_wal :: bool
  flag_reopen :: int32
  flag_ops_per_thread :: uint32

definition default_flags :: Flags where
  "default_flags =
     \<lparr> flag_readpercent = 10, flag_prefixpercent = 25, flag_writepercent = 50,
       flag_delpercent = 15, flag_disable_wal = False, flag_reopen = 10,
       flag_ops_per_thread = 600000 \<rparr>"

text \<open>
  An argument of the command line as the chain of \<open>sscanf\<close> tests of \<open>main\<close> reads
  it: the flag whose pattern it matches, with the number read by \<open>%d\<close> or \<open>%u\<close>.
  \<open>ArgOther\<close> is an argument that the branch of one of the other flags accepts; those
  branches leave the seven flags above alone. \<open>ArgUnknown\<close> is an argument that matches
  no pattern.
\<close>

datatype argument =
    ArgReadPercent int32
  | ArgPrefixPercent int32
  | ArgWritePercent int32
  | ArgDelPercent int32
  | ArgDisableWal int32
  | ArgReopen int32
  | ArgOpsPerThread uint32
  | ArgOther
  | ArgUnknown

text \<open>
  One pass through the chain. A branch is taken when its pattern matches and its test on
  the number holds (\<open>n >= 0 && n <= 100\<close> for a percentage, \<open>n == 0 || n == 1\<close> for
  \<open>--disable_wal\<close>, \<open>n >= 0\<close> for \<open>--reopen\<close>); an argument that takes no branch
  reaches the final \<open>else\<close>, which prints \<open>Invalid flag\<close> and calls \<open>exit(1)\<close>: the
  value \<open>None\<close>.
\<close>

definition set_flag :: "argument \<Rightarrow> Flags \<Rightarrow> Flags option" where
  "set_flag a f =
     (case a of
        ArgReadPercent n \<Rightarrow>
          if 0 \<le>s n \<and> n \<le>s 100 then Some (f\<lparr> flag_readpercent := n \<rparr>) else None
      | ArgPrefixPercent n \<Rightarrow>
          if 0 \<le>s n \<and> n \<le>s 100 then Some (f\<lparr> flag_prefixpercent := n \<rparr>) else None
      | ArgWritePercent n \<Rightarrow>
          if 0 \<le>s n \<and> n \<le>s 100 then Some (f\<lparr> flag_writepercent := n \<rparr>) else None
      | ArgDelPercent n \<Rightarrow>
          if 0 \<le>s n \<and> n \<le>s 100 then Some (f\<lparr> flag_delpercent := n \<rparr>) else None
      | ArgDisableWal n \<Rightarrow>
          if n = 0 \<or> n = 1 then Some (f\<lparr> flag_disable_wal := (n = 1) \<rparr>) else None
      | ArgReopen n \<Rightarrow>
          if 0 \<le>s n then Some (f\<lparr> flag_reopen := n \<rparr>) else None
      | ArgOpsPerThread u \<Rightarrow> Some (f\<lparr> flag_ops_per_thread := u \<rparr>)
      | ArgOther \<Rightarrow> Some f
      | ArgUnknown \<Rightarrow> None)"

text \<open>The loop \<open>for (int i = 1; i < argc; i++)\<close> over the arguments.\<close>

fun parse_flags :: "argument list \<Rightarrow> Flags \<Rightarrow> Flags option" where
  "parse_flags [] f = Some f"
| "parse_flags (a # as) f =
     (case set_flag a f of None \<Rightarrow> None | Some f' \<Rightarrow> parse_flags as f')"

text \<open>
  \<open>main\<close> up to the point where it constructs the stress test and runs it: the loop
  over the arguments, then the three checks.
\<close>

definition main_startup :: "argument list \<Rightarrow> startup" where
  "main_startup argv =
     (case parse_flags argv default_flags of
        None \<Rightarrow> StartupExit 1 InvalidFlag
      | Some f \<Rightarrow>
          validate_flags (flag_readpercent f) (flag_prefixpercent f) (flag_writepercent f)
            (flag_delpercent f) (flag_disable_wal f) (flag_reopen f) (flag_ops_per_thread f))"

section \<open>The value generator: what it writes and returns\<close>

lemma length_u32_bytes: "length (u32_bytes e w) = 4"
  by (cases e) (simp_all add: u32_bytes_def)

lemma store_bytes_eq:
  "store_bytes v i bs =
     (if bs = [] \<or> i + length bs \<le> length v
      then Some (take i v @ bs @ drop (i + length bs) v) else None)"
proof (induction bs arbitrary: v i)
  case Nil
  show ?case by simp
next
  case (Cons b bs)
  show ?case
  proof (cases "i < length v")
    case False
    then show ?thesis by (simp add: store_byte_def)
  next
    case True
    have t: "take (Suc i) (v[i := b]) = take i v @ [b]"
      using True by (simp add: take_Suc_conv_app_nth)
    show ?thesis
      using True by (auto simp: store_byte_def Cons.IH t)
  qed
qed

lemma fill_value_eq:
  "fill_value rand i value_sz v =
     (if value_sz \<le> i then Some v
      else if value_sz \<le> length v
      then Some (take i v @ map (value_byte rand) [i..<value_sz] @ drop value_sz v)
      else None)"
proof (induction rand i value_sz v rule: fill_value.induct)
  case (1 rand i value_sz v)
  show ?case
  proof (cases "i < value_sz")
    case False
    then show ?thesis by (subst fill_value.simps) simp
  next
    case lt: True
    show ?thesis
    proof (cases "i < length v")
      case False
      with lt show ?thesis by (subst fill_value.simps) (simp add: store_byte_def)
    next
      case True
      let ?b = "value_byte rand i"
      have s: "store_byte v i ?b = Some (v[i := ?b])"
        using True by (simp add: store_byte_def)
      have step: "fill_value rand i value_sz v = fill_value rand (Suc i) value_sz (v[i := ?b])"
        using lt s by (subst fill_value.simps) simp
      have t: "take (Suc i) (v[i := ?b]) = take i v @ [?b]"
        using True by (simp add: take_Suc_conv_app_nth)
      have u: "[i..<value_sz] = i # [Suc i..<value_sz]"
        using lt by (simp add: upt_conv_Cons)
      have w: "v[i := ?b] = take i v @ ?b # drop (Suc i) v"
        using True by (simp add: upd_conv_take_nth_drop)
      have ih: "fill_value rand (Suc i) value_sz (v[i := ?b]) =
         (if value_sz \<le> Suc i then Some (v[i := ?b])
          else if value_sz \<le> length v
          then Some (take i v @ ?b # map (value_byte rand) [Suc i..<value_sz] @ drop value_sz v)
          else None)"
        using "1.IH"[OF lt s] t by simp
      show ?thesis
      proof (cases "value_sz = Suc i")
        case True
        have "fill_value rand i value_sz v = Some (v[i := ?b])"
          unfolding step ih using True by simp
        also have "\<dots> = Some (take i v @ map (value_byte rand) [i..<value_sz] @ drop value_sz v)"
          using w True by simp
        finally show ?thesis using lt \<open>i < length v\<close> True by simp
      next
        case False
        then have "\<not> value_sz \<le> Suc i" using lt by simp
        then show ?thesis
          unfolding step ih using lt u by simp
      qed
    qed
  qed
qed

lemma GenerateValue_eq:
  "GenerateValue host m rand v max_sz =
     (let value_sz = unat ((rand mod 3 + 1) * m) in
      if \<not> (value_sz \<le> max_sz \<and> value_sz \<ge> 4) then AssertionFailed
      else if value_sz < length v
      then Generated value_sz
             (u32_bytes host rand @ map (value_byte rand) [4..<value_sz] @ 0 # drop (Suc value_sz) v)
      else OutOfBounds)"
proof -
  define value_sz where "value_sz = unat ((rand mod 3 + 1) * m)"
  show ?thesis
  proof (cases "value_sz \<le> max_sz \<and> value_sz \<ge> 4")
    case False
    then show ?thesis by (simp add: GenerateValue_def value_sz_def Let_def)
  next
    case ok: True
    show ?thesis
    proof (cases "value_sz < length v")
      case False
      then show ?thesis
        using ok
        by (auto simp: GenerateValue_def value_sz_def[symmetric] Let_def store_bytes_eq
            fill_value_eq store_byte_def length_u32_bytes split: option.splits)
    next
      case True
      have l: "length (u32_bytes host rand @ drop 4 v) = length v"
        using True ok by (simp add: length_u32_bytes)
      have "(u32_bytes host rand @ map (value_byte rand) [4..<value_sz] @ drop value_sz v)[value_sz := 0]
            = u32_bytes host rand @ map (value_byte rand) [4..<value_sz] @ 0 # drop (Suc value_sz) v"
        using True ok
        by (simp add: list_update_append length_u32_bytes upd_conv_take_nth_drop Cons_nth_drop_Suc)
      moreover have "take 4 (u32_bytes host rand @ drop 4 v) = u32_bytes host rand"
        by (simp add: length_u32_bytes)
      moreover have "drop value_sz (u32_bytes host rand @ drop 4 v) = drop value_sz v"
        using ok by (simp add: length_u32_bytes)
      ultimately show ?thesis
        using ok True l
        by (cases "value_sz = 4")
           (simp_all add: GenerateValue_def value_sz_def[symmetric] Let_def store_bytes_eq
              fill_value_eq store_byte_def length_u32_bytes)
    qed
  qed
qed

lemma unat_ucast_32_64: "unat (ucast (w :: 32 word) :: 64 word) = unat w"
  by (simp add: unsigned_ucast_eq take_bit_nat_eq_self_iff order_less_trans [OF unsigned_less])

lemma value_byte_nat: "unat (value_byte rand i) = (unat rand XOR i) mod 256"
proof -
  have "unat (value_byte rand i) = take_bit 8 (unat (ucast rand :: 64 word) XOR take_bit 64 i)"
    unfolding value_byte_def
    by (simp only: unsigned_ucast_eq [where 'c = 8] unsigned_xor_eq unsigned_of_nat of_nat_id id_apply) simp
  also have "\<dots> = take_bit 8 (unat rand XOR i)"
    by (simp add: take_bit_xor unat_ucast_32_64)
  finally show ?thesis by (simp add: take_bit_eq_mod)
qed


lemma sint_of_small: "uint (m :: 32 word) < 2147483648 \<Longrightarrow> sint m = uint m"
proof -
  assume "uint m < 2147483648"
  moreover have "- 2147483648 \<le> uint m"
    by (rule order_trans [OF _ uint_ge_0]) simp
  ultimately have "signed_take_bit 31 (uint m) = uint m"
    by (simp add: signed_take_bit_int_eq_self_iff)
  then show ?thesis by (simp add: sint_uint)
qed

lemma uint_of_nonneg: "0 \<le> sint (m :: 32 word) \<Longrightarrow> uint m = sint m"
proof -
  assume a: "0 \<le> sint m"
  have "sint m < 2 ^ 31" using sint_lt [of m] by simp
  then have "take_bit 32 (sint m) = sint m"
    using a by (simp add: take_bit_int_eq_self)
  then show ?thesis using uint_sint [of m] by simp
qed

lemma unat_mod3_plus1: "unat ((rand :: 32 word) mod 3 + 1) = unat rand mod 3 + 1"
proof -
  have "unat (rand mod 3) = unat rand mod 3" by (simp add: unat_mod)
  then show ?thesis by (simp add: unat_word_ariths)
qed

lemma value_sz_nat:
  "unat (((rand :: 32 word) mod 3 + 1) * m) = ((unat rand mod 3 + 1) * unat m) mod 2 ^ 32"
  by (simp add: unat_word_ariths(2) unat_mod3_plus1)

text \<open>
  C2, where the code departs from it: with value_size_mult = 1431655768 and base = 2 the
  length \<open>((base mod 3) + 1) * value_size_mult\<close> is 4294967304, far above the capacity
  of the 100-byte buffer, so the assertion should fail. The code takes the product in
  32-bit unsigned arithmetic before it widens it to \<open>size_t\<close>: the assertion holds and
  the returned length is 8.
\<close>

theorem GenerateValue_length_wraps:
  "gv_length (GenerateValue LittleEndian 1431655768 2 (replicate 100 0) 100) = Some 8 \<and>
   (unat (2 :: uint32) mod 3 + 1) * nat (sint (1431655768 :: int32)) = 4294967304"
  by (simp add: GenerateValue_eq gv_length_def)

text \<open>
  What a call of GenerateValue does, for every base and multiplier: it fails its assertion
  exactly when the length, the product modulo \<open>2 ^ 32\<close>, is below 4 or above
  \<open>max_sz\<close>; when it returns, the length is the exact product whenever the multiplier is
  not negative and three times it is below \<open>2 ^ 32\<close>, the first four bytes are the base
  in host order, every byte at an index \<open>i \<ge> 4\<close> below the length is \<open>base XOR i\<close> cut
  to eight bits, and any other call with the same base returns the same length and the same
  bytes, whatever the buffer held before.
\<close>

lemma GenerateValue_returns:
  "(GenerateValue host m rand v max_sz = AssertionFailed \<longleftrightarrow>
      \<not> (4 \<le> ((unat rand mod 3 + 1) * unat m) mod 2 ^ 32 \<and>
         ((unat rand mod 3 + 1) * unat m) mod 2 ^ 32 \<le> max_sz)) \<and>
   (\<forall>sz v'. GenerateValue host m rand v max_sz = Generated sz v' \<longrightarrow>
      sz = ((unat rand mod 3 + 1) * unat m) mod 2 ^ 32 \<and>
      (0 \<le> sint m \<and> 3 * sint m < 2 ^ 32 \<longrightarrow> int sz = (uint rand mod 3 + 1) * sint m) \<and>
      4 \<le> sz \<and> sz \<le> max_sz \<and>
      take 4 v' = u32_bytes host rand \<and>
      (\<forall>i. 4 \<le> i \<and> i < sz \<longrightarrow> unat (v' ! i) = (unat rand XOR i) mod 256) \<and>
      (\<forall>v2 max2 sz2 v2'. GenerateValue host m rand v2 max2 = Generated sz2 v2' \<longrightarrow>
         sz2 = sz \<and> take sz2 v2' = take sz v'))"
proof -
  define len where "len = ((unat rand mod 3 + 1) * unat m) mod 2 ^ 32"
  have len: "unat ((rand mod 3 + 1) * m) = len"
    by (simp add: value_sz_nat len_def)
  have G: "\<And>w mx. GenerateValue host m rand w mx =
     (if \<not> (len \<le> mx \<and> len \<ge> 4) then AssertionFailed
      else if len < length w
      then Generated len
             (u32_bytes host rand @ map (value_byte rand) [4..<len] @ 0 # drop (Suc len) w)
      else OutOfBounds)"
    by (simp add: GenerateValue_eq len Let_def)
  have A: "GenerateValue host m rand v max_sz = AssertionFailed \<longleftrightarrow> \<not> (4 \<le> len \<and> len \<le> max_sz)"
    by (auto simp: G)
  have exact: "0 \<le> sint m \<and> 3 * sint m < 2 ^ 32 \<longrightarrow> int len = (uint rand mod 3 + 1) * sint m"
  proof
    assume h: "0 \<le> sint m \<and> 3 * sint m < 2 ^ 32"
    then have um: "int (unat m) = sint m" by (simp add: uint_of_nonneg)
    have "unat rand mod 3 + 1 \<le> 3" by arith
    then have "(unat rand mod 3 + 1) * unat m \<le> 3 * unat m" by (rule mult_le_mono1)
    moreover have "3 * unat m < 2 ^ 32"
    proof -
      have "int (3 * unat m) < 2 ^ 32" using h um by simp
      then show ?thesis by (simp only: flip: of_nat_less_iff [where 'a = int]) simp
    qed
    ultimately have "(unat rand mod 3 + 1) * unat m < 2 ^ 32"
      by (rule le_less_trans)
    then have "len = (unat rand mod 3 + 1) * unat m"
      unfolding len_def by (rule mod_less)
    then have "int len = (int (unat rand) mod 3 + 1) * int (unat m)"
      by (simp add: zmod_int algebra_simps)
    then show "int len = (uint rand mod 3 + 1) * sint m"
      using um by simp
  qed
  have B: "\<And>sz v'. GenerateValue host m rand v max_sz = Generated sz v' \<Longrightarrow>
      sz = len \<and> 4 \<le> sz \<and> sz \<le> max_sz \<and>
      take 4 v' = u32_bytes host rand \<and>
      (\<forall>i. 4 \<le> i \<and> i < sz \<longrightarrow> unat (v' ! i) = (unat rand XOR i) mod 256) \<and>
      (\<forall>v2 max2 sz2 v2'. GenerateValue host m rand v2 max2 = Generated sz2 v2' \<longrightarrow>
         sz2 = sz \<and> take sz2 v2' = take sz v')"
  proof -
    fix sz v'
    assume g: "GenerateValue host m rand v max_sz = Generated sz v'"
    let ?body = "u32_bytes host rand @ map (value_byte rand) [4..<len]"
    from g have ok: "4 \<le> len" "len \<le> max_sz" "len < length v" and sz: "sz = len"
      and v': "v' = ?body @ 0 # drop (Suc len) v"
      by (auto simp: G split: if_splits)
    have lb: "length ?body = len" using ok by (simp add: length_u32_bytes)
    have t4: "take 4 v' = u32_bytes host rand"
      by (simp add: v' length_u32_bytes)
    have bytes: "\<forall>i. 4 \<le> i \<and> i < sz \<longrightarrow> unat (v' ! i) = (unat rand XOR i) mod 256"
    proof (intro allI impI)
      fix i assume i: "4 \<le> i \<and> i < sz"
      then have d: "i - 4 < len - 4" using sz by arith
      have "v' ! i = map (value_byte rand) [4..<len] ! (i - 4)"
        using i sz d by (simp add: v' nth_append length_u32_bytes)
      also have "\<dots> = value_byte rand i" using i sz d by simp
      finally show "unat (v' ! i) = (unat rand XOR i) mod 256"
        by (simp add: value_byte_nat)
    qed
    have det: "\<forall>v2 max2 sz2 v2'. GenerateValue host m rand v2 max2 = Generated sz2 v2' \<longrightarrow>
         sz2 = sz \<and> take sz2 v2' = take sz v'"
    proof (intro allI impI)
      fix v2 max2 sz2 v2'
      assume g2: "GenerateValue host m rand v2 max2 = Generated sz2 v2'"
      then have "sz2 = len" and "v2' = ?body @ 0 # drop (Suc len) v2"
        by (auto simp: G split: if_splits)
      then show "sz2 = sz \<and> take sz2 v2' = take sz v'"
        using lb by (simp add: sz v')
    qed
    show "sz = len \<and> 4 \<le> sz \<and> sz \<le> max_sz \<and>
      take 4 v' = u32_bytes host rand \<and>
      (\<forall>i. 4 \<le> i \<and> i < sz \<longrightarrow> unat (v' ! i) = (unat rand XOR i) mod 256) \<and>
      (\<forall>v2 max2 sz2 v2'. GenerateValue host m rand v2 max2 = Generated sz2 v2' \<longrightarrow>
         sz2 = sz \<and> take sz2 v2' = take sz v')"
      using ok sz t4 bytes det by simp
  qed
  show ?thesis
    unfolding len_def [symmetric]
    using A B exact by blast
qed


lemma GenerateValue_returns_example:
  "GenerateValue LittleEndian 8 5 (replicate 30 0) 30 =
     Generated 24 (u32_bytes LittleEndian 5 @ map (value_byte 5) [4..<24] @ 0 # replicate 5 0) \<and>
   (24 :: nat) = ((unat (5 :: uint32) mod 3 + 1) * unat (8 :: int32)) mod 2 ^ 32 \<and>
   int 24 = (uint (5 :: uint32) mod 3 + 1) * sint (8 :: int32) \<and>
   unat ((u32_bytes LittleEndian 5 @ map (value_byte 5) [4..<24] @ 0 # replicate 5 0) ! 7) =
     (unat (5 :: uint32) XOR 7) mod 256"
proof -
  have G: "GenerateValue LittleEndian 8 5 (replicate 30 0) 30 =
     Generated 24 (u32_bytes LittleEndian 5 @ map (value_byte 5) [4..<24] @ 0 # replicate 5 0)"
    by (simp add: GenerateValue_eq)
  have h: "0 \<le> sint (8 :: int32) \<and> 3 * sint (8 :: int32) < 2 ^ 32" by simp
  have i: "(4 :: nat) \<le> 7 \<and> (7 :: nat) < 24" by simp
  from GenerateValue_returns [of LittleEndian 8 5 "replicate 30 0" 30, THEN conjunct2, rule_format, OF G]
  show ?thesis using G h i by blast
qed

section \<open>The value generator and its 100-byte buffers\<close>

lemma Generated_iff:
  "(\<exists>sz v'. GenerateValue host m rand v max_sz = Generated sz v') \<longleftrightarrow>
     4 \<le> ((unat rand mod 3 + 1) * unat m) mod 2 ^ 32 \<and>
     ((unat rand mod 3 + 1) * unat m) mod 2 ^ 32 \<le> max_sz \<and>
     ((unat rand mod 3 + 1) * unat m) mod 2 ^ 32 < length v"
  by (simp add: GenerateValue_eq value_sz_nat Let_def)

lemma safe_mult_imp:
  assumes "4 \<le> sint (m :: int32)" "3 * sint m < 100"
  shows "4 \<le> ((unat (rand :: uint32) mod 3 + 1) * unat m) mod 2 ^ 32 \<and>
         ((unat rand mod 3 + 1) * unat m) mod 2 ^ 32 < 100"
proof -
  have um: "uint m = sint m" using assms by (simp add: uint_of_nonneg)
  then have "int (unat m) = sint m" by simp
  with assms have lo: "4 \<le> unat m" and hi: "3 * unat m < 100" by linarith+
  let ?k = "unat rand mod 3 + 1"
  have k: "1 \<le> ?k" "?k \<le> 3" by arith+
  have "?k * unat m \<le> 3 * unat m" using k(2) by (rule mult_le_mono1)
  then have up: "?k * unat m < 100" using hi by linarith
  have "1 * unat m \<le> ?k * unat m" using k(1) by (rule mult_le_mono1)
  then have low: "4 \<le> ?k * unat m" using lo by linarith
  have "?k * unat m < 2 ^ 32" using up by simp
  then have "(?k * unat m) mod 2 ^ 32 = ?k * unat m" by (rule mod_less)
  then show ?thesis using up low by simp
qed

lemma safe_mult_conv:
  assumes "\<forall>rand :: uint32. 4 \<le> ((unat rand mod 3 + 1) * unat (m :: int32)) mod 2 ^ 32 \<and>
             ((unat rand mod 3 + 1) * unat m) mod 2 ^ 32 < 100"
  shows "4 \<le> sint m \<and> 3 * sint m < 100"
proof -
  have um32: "unat m < 2 ^ 32" by (rule order_less_le_trans [OF unsigned_less]) simp
  from assms [rule_format, of 0] have "4 \<le> unat m mod 2 ^ 32 \<and> unat m mod 2 ^ 32 < 100"
    by simp
  then have a: "4 \<le> unat m" "unat m < 100" using um32 by simp_all
  then have "int (unat m) < 100" by linarith
  then have "uint m < 2147483648" by simp
  then have sm: "sint m = int (unat m)" by (simp add: sint_of_small)
  have "3 * unat m < 2 ^ 32" using a by simp
  then have "(3 * unat m) mod 2 ^ 32 = 3 * unat m" by (rule mod_less)
  moreover from assms [rule_format, of 2] have "(3 * unat m) mod 2 ^ 32 < 100" by simp
  ultimately have "3 * unat m < 100" by simp
  then have "4 \<le> int (unat m) \<and> 3 * int (unat m) < 100" using a by linarith
  then show ?thesis unfolding sm .
qed

text \<open>
  C7: a call that returns has written a NUL at index \<open>value_sz\<close>, one byte beyond the
  returned length, and the assertion \<open>value_sz <= max_sz\<close> does not cover that write:
  with value_size_mult = 50 and base = 1 the length is 100, the assertion holds for the
  100-byte buffer, and the NUL falls outside it. For the 100-byte buffers of OperateDb and
  VerifyValue, every base gives a call whose assertion holds and whose writes all stay
  inside the buffer exactly when \<open>4 \<le> value_size_mult\<close> and
  \<open>3 * value_size_mult < 100\<close>.
\<close>

theorem GenerateValue_buffer_bounds:
  assumes "length v = 100"
  shows "((\<forall>rand. \<exists>sz v'. GenerateValue host m rand v 100 = Generated sz v') \<longleftrightarrow>
            4 \<le> sint m \<and> 3 * sint m < 100) \<and>
         (\<forall>rand w max_sz sz v'. GenerateValue host m rand w max_sz = Generated sz v' \<longrightarrow>
            sz < length w \<and> v' ! sz = 0) \<and>
         GenerateValue host 50 1 v 100 = OutOfBounds"
proof (intro conjI)
  show "(\<forall>rand. \<exists>sz v'. GenerateValue host m rand v 100 = Generated sz v') \<longleftrightarrow>
            4 \<le> sint m \<and> 3 * sint m < 100"
  proof
    assume "\<forall>rand. \<exists>sz v'. GenerateValue host m rand v 100 = Generated sz v'"
    then have "\<forall>rand :: uint32. 4 \<le> ((unat rand mod 3 + 1) * unat m) mod 2 ^ 32 \<and>
             ((unat rand mod 3 + 1) * unat m) mod 2 ^ 32 < 100"
      unfolding Generated_iff using assms by simp
    then show "4 \<le> sint m \<and> 3 * sint m < 100" by (rule safe_mult_conv)
  next
    assume h: "4 \<le> sint m \<and> 3 * sint m < 100"
    show "\<forall>rand. \<exists>sz v'. GenerateValue host m rand v 100 = Generated sz v'"
    proof
      fix rand :: uint32
      from h have "4 \<le> ((unat rand mod 3 + 1) * unat m) mod 2 ^ 32 \<and>
         ((unat rand mod 3 + 1) * unat m) mod 2 ^ 32 < 100"
        using safe_mult_imp [of m rand] by blast
      then show "\<exists>sz v'. GenerateValue host m rand v 100 = Generated sz v'"
        unfolding Generated_iff using assms by simp
    qed
  qed
next
  show "\<forall>rand w max_sz sz v'. GenerateValue host m rand w max_sz = Generated sz v' \<longrightarrow>
            sz < length w \<and> v' ! sz = 0"
  proof (intro allI impI)
    fix rand w max_sz sz v'
    assume g: "GenerateValue host m rand w max_sz = Generated sz v'"
    let ?len = "unat ((rand mod 3 + 1) * m)"
    from g have ok: "4 \<le> ?len" "?len < length w" and sz: "sz = ?len"
      and v': "v' = (u32_bytes host rand @ map (value_byte rand) [4..<?len]) @ 0 # drop (Suc ?len) w"
      by (auto simp: GenerateValue_eq Let_def split: if_splits)
    have "length (u32_bytes host rand @ map (value_byte rand) [4..<?len]) = ?len"
      using ok by (simp add: length_u32_bytes)
    then have "v' ! ?len = 0"
      unfolding v' by (metis nth_append_length)
    then show "sz < length w \<and> v' ! sz = 0" using ok sz by simp
  qed
next
  show "GenerateValue host 50 1 v 100 = OutOfBounds"
    using assms by (simp add: GenerateValue_eq)
qed

theorem GenerateValue_buffer_bounds_witness:
  "length (replicate 100 (0 :: byte)) = 100 \<and>
   4 \<le> sint (8 :: int32) \<and> 3 * sint (8 :: int32) < 100 \<and>
   (\<forall>rand. \<exists>sz v'. GenerateValue LittleEndian 8 rand (replicate 100 0) 100 = Generated sz v') \<and>
   GenerateValue LittleEndian 50 1 (replicate 100 0) 100 = OutOfBounds"
proof -
  have l: "length (replicate 100 (0 :: byte)) = 100" by simp
  have h: "4 \<le> sint (8 :: int32) \<and> 3 * sint (8 :: int32) < 100" by simp
  from GenerateValue_buffer_bounds [OF l, of LittleEndian 8] h l
  show ?thesis by blast
qed

section \<open>The key codec is monotone\<close>

lemma length_fixed_le: "length (fixed_le n w) = n"
  by (induction n arbitrary: w) simp_all

lemma Key_rev: "Key val = rev (fixed_le 8 val)"
proof (rule nth_equalityI)
  show "length (Key val) = length (rev (fixed_le 8 val))"
    by (simp add: Key_def Let_def length_fixed_le)
next
  fix i assume "i < length (Key val)"
  then have i: "i < 8" by (simp add: Key_def Let_def)
  then have "Key val ! i = fixed_le 8 val ! (7 - i)"
    by (simp add: Key_def Let_def PutFixed64_def del: upt_Suc)
  also have "\<dots> = rev (fixed_le 8 val) ! i"
    using i by (simp add: rev_nth length_fixed_le)
  finally show "Key val ! i = rev (fixed_le 8 val) ! i" .
qed

lemma Key_bytes:
  "Key val = [ucast (drop_bit 56 val), ucast (drop_bit 48 val), ucast (drop_bit 40 val),
              ucast (drop_bit 32 val), ucast (drop_bit 24 val), ucast (drop_bit 16 val),
              ucast (drop_bit 8 val), ucast val]"
  by (simp add: Key_rev eval_nat_numeral drop_bit_drop_bit)

lemma le_value_fixed_le:
  "foldr (\<lambda>b acc. unat b + 256 * acc) (fixed_le n w) 0 = unat w mod 256 ^ n"
proof (induction n arbitrary: w)
  case 0
  show ?case by simp
next
  case (Suc n)
  have a: "unat (ucast w :: byte) = unat w mod 256"
    by (simp add: unsigned_ucast_eq take_bit_eq_mod)
  have b: "unat (drop_bit 8 w) = unat w div 256"
    by (simp add: drop_bit_eq_div unat_div)
  have "unat w mod (256 * 256 ^ n) = 256 * (unat w div 256 mod 256 ^ n) + unat w mod 256"
    by (rule mod_mult2_eq)
  then show ?case by (simp add: Suc.IH a b)
qed

lemma le_value_Key: "foldr (\<lambda>b acc. unat b + 256 * acc) (fixed_le 8 w) 0 = unat w"
proof -
  have "unat w < 2 ^ 64" by (rule order_less_le_trans [OF unsigned_less]) simp
  then have "unat w mod 256 ^ 8 = unat w" by simp
  then show ?thesis by (simp only: le_value_fixed_le)
qed

lemma lexordp_snoc:
  "length us = length vs \<Longrightarrow>
     ord_class.lexordp (us @ [x]) (vs @ [y]) \<longleftrightarrow> ord_class.lexordp us vs \<or> (us = vs \<and> (x :: byte) < y)"
  by (induction us vs rule: list_induct2) auto

lemma byte_digit_less:
  "unat (x :: byte) + 256 * a < unat (y :: byte) + 256 * b \<longleftrightarrow> a < b \<or> (a = b \<and> x < y)"
proof -
  have "unat x < 256" "unat y < 256"
    using unsigned_less [of x] unsigned_less [of y] by simp_all
  then show ?thesis unfolding word_less_nat_alt by linarith
qed

lemma byte_digit_eq:
  "unat (x :: byte) + 256 * a = unat (y :: byte) + 256 * b \<longleftrightarrow> a = b \<and> x = y"
proof
  assume eq: "unat x + 256 * a = unat y + 256 * b"
  have "unat x < 256" and "unat y < 256"
    using unsigned_less [of x] unsigned_less [of y] by simp_all
  then have dx: "(unat x + 256 * a) div 256 = a" and dy: "(unat y + 256 * b) div 256 = b"
    and mx: "(unat x + 256 * a) mod 256 = unat x" and my: "(unat y + 256 * b) mod 256 = unat y"
    by simp_all
  from eq dx dy have "a = b" by simp
  moreover from eq mx my have "unat x = unat y" by simp
  ultimately show "a = b \<and> x = y" by (simp add: word_unat_eq_iff)
next
  assume "a = b \<and> x = y"
  then show "unat x + 256 * a = unat y + 256 * b" by simp
qed

lemma le_value_inj:
  "length xs = length ys \<Longrightarrow>
     foldr (\<lambda>b acc. unat b + 256 * acc) xs 0 = foldr (\<lambda>b acc. unat b + 256 * acc) ys 0
       \<longleftrightarrow> xs = (ys :: bytes)"
  by (induction xs ys rule: list_induct2) (auto simp: byte_digit_eq)

lemma lexordp_rev_le_value:
  "length xs = length ys \<Longrightarrow>
     ord_class.lexordp (rev xs) (rev (ys :: bytes)) \<longleftrightarrow>
       foldr (\<lambda>b acc. unat b + 256 * acc) xs 0 < foldr (\<lambda>b acc. unat b + 256 * acc) ys 0"
proof (induction xs ys rule: list_induct2)
  case Nil
  show ?case by simp
next
  case (Cons x xs y ys)
  then show ?case
    by (simp add: lexordp_snoc byte_digit_less le_value_inj)
qed

lemma uint64_of_nonneg: "0 \<le> sint (w :: 64 word) \<Longrightarrow> uint w = sint w"
proof -
  assume a: "0 \<le> sint w"
  have "sint w < 2 ^ 63" using sint_lt [of w] by simp
  then have "take_bit 64 (sint w) = sint w"
    using a by (simp add: take_bit_int_eq_self)
  then show ?thesis using uint_sint [of w] by simp
qed

text \<open>
  C4: for every pair of logical keys \<open>a\<close>, \<open>b\<close> with \<open>0 \<le> a < b\<close>, \<open>Key a\<close> is
  strictly less than \<open>Key b\<close> in the lexicographic order of their (unsigned) bytes; the
  encoding is injective; and \<open>Key a\<close> is the eight bytes of \<open>a\<close>, most significant first.
\<close>

theorem Key_monotone:
  "(0 \<le> sint a \<and> sint a < sint b \<longrightarrow> ord_class.lexordp (Key a) (Key b)) \<and>
   (Key a = Key b \<longrightarrow> a = b) \<and>
   Key a = [ucast (drop_bit 56 a), ucast (drop_bit 48 a), ucast (drop_bit 40 a),
            ucast (drop_bit 32 a), ucast (drop_bit 24 a), ucast (drop_bit 16 a),
            ucast (drop_bit 8 a), ucast a]"
proof (intro conjI impI)
  assume h: "0 \<le> sint a \<and> sint a < sint b"
  then have "uint a = sint a" "uint b = sint b" by (simp_all add: uint64_of_nonneg)
  with h have "uint a < uint b" by simp
  then have "unat a < unat b" by (simp add: word_less_def flip: word_less_nat_alt)
  then show "ord_class.lexordp (Key a) (Key b)"
    by (simp add: Key_rev lexordp_rev_le_value length_fixed_le le_value_Key)
next
  assume "Key a = Key b"
  then have "fixed_le 8 a = fixed_le 8 b" by (simp add: Key_rev)
  then have "unat a = unat b" by (metis le_value_Key)
  then show "a = b" by (simp add: word_unat_eq_iff)
next
  show "Key a = [ucast (drop_bit 56 a), ucast (drop_bit 48 a), ucast (drop_bit 40 a),
            ucast (drop_bit 32 a), ucast (drop_bit 24 a), ucast (drop_bit 16 a),
            ucast (drop_bit 8 a), ucast a]"
    by (rule Key_bytes)
qed

theorem Key_monotone_witness:
  "0 \<le> sint (255 :: long) \<and> sint (255 :: long) < sint (256 :: long) \<and>
   ord_class.lexordp (Key 255) (Key 256) \<and>
   Key 255 = [0, 0, 0, 0, 0, 0, 0, 255] \<and> Key 256 = [0, 0, 0, 0, 0, 0, 1, 0]"
proof -
  have h: "0 \<le> sint (255 :: long) \<and> sint (255 :: long) < sint (256 :: long)" by simp
  have k: "Key 255 = [0, 0, 0, 0, 0, 0, 0, 255]" "Key 256 = [0, 0, 0, 0, 0, 0, 1, 0]"
    by (simp_all add: Key_monotone [THEN conjunct2, THEN conjunct2] drop_bit_eq_div)
  from Key_monotone [of 255 256, THEN conjunct1] h have "ord_class.lexordp (Key 255) (Key 256)" by blast
  then show ?thesis using h k by simp
qed

section \<open>One operation per draw\<close>

lemma sint32_small: "unat (p :: 32 word) \<le> 100 \<Longrightarrow> sint p = int (unat p)"
proof -
  assume "unat p \<le> 100"
  then have "int (unat p) \<le> 100" by linarith
  then have "uint p < 2147483648" by simp
  then show ?thesis by (simp add: sint_of_small)
qed

lemma sint32_sub:
  assumes "- 2147483648 \<le> sint (a :: 32 word) - sint (b :: 32 word)"
      and "sint a - sint b < 2147483648"
  shows "sint (a - b) = sint a - sint b"
proof -
  have "sint (a - b) = signed_take_bit 31 (sint a - sint b)"
    by (simp add: sint_word_ariths)
  also have "\<dots> = sint a - sint b"
    using assms by (simp add: signed_take_bit_int_eq_self_iff)
  finally show ?thesis .
qed

lemma sint32_sub_percent:
  assumes "sint (a :: 32 word) = x" and "unat (b :: 32 word) \<le> 100" and "- 400 \<le> x" and "x < 100"
  shows "sint (a - b) = x - int (unat b)"
proof -
  have sb: "sint b = int (unat b)" using assms(2) by (rule sint32_small)
  have "int (unat b) \<le> 100" using assms(2) by linarith
  then have lo: "- 2147483648 \<le> sint a - sint b" and hi: "sint a - sint b < 2147483648"
    unfolding sb assms(1) using assms(3,4) by linarith+
  show ?thesis
    using sint32_sub [OF lo hi] unfolding sb assms(1) .
qed

lemma in_range_iff:
  "unat percent \<le> 100 \<Longrightarrow> in_range p percent \<longleftrightarrow> 0 \<le> sint p \<and> sint p < int (unat percent)"
  by (simp add: in_range_def word_sle_eq word_sless_alt sint32_small)

lemma classify_arith:
  fixes P R F W D :: int
  assumes "0 \<le> P" "P < R + F + W + D" "0 \<le> R" "0 \<le> F" "0 \<le> W" "0 \<le> D"
  shows "(if 0 \<le> P \<and> P < R then [OpRead] else []) @
         (if 0 \<le> P - R \<and> P - R < F then [OpPrefix] else []) @
         (if 0 \<le> P - R - F \<and> P - R - F < W then [OpWrite] else []) @
         (if 0 \<le> P - R - F - W \<and> P - R - F - W < D then [OpDelete] else []) =
         [if P < R then OpRead
          else if P - R < F then OpPrefix
          else if P - R - F < W then OpWrite
          else OpDelete]"
  using assms by auto

text \<open>
  C5: for every draw \<open>p\<close> in \<open>[0, 100)\<close>, when the four percentages sum to 100,
  exactly one of the four branches of the per-operation loop runs, and it is the one the
  cumulative ranges select in the order Read, Prefix, Write, Delete: a read when
  \<open>p < read%\<close>; else, after subtracting, a prefix scan when \<open>p < prefix%\<close>; else, after
  subtracting, a write when \<open>p < write%\<close>; else a delete.
\<close>

theorem OperateDb_branches_one:
  assumes p: "unat prob_op < 100"
      and sum: "unat readp + unat prefixp + unat writep + unat delp = 100"
  shows "OperateDb_branches readp prefixp writep delp prob_op =
           [if uint prob_op < uint readp then OpRead
            else if uint prob_op - uint readp < uint prefixp then OpPrefix
            else if uint prob_op - uint readp - uint prefixp < uint writep then OpWrite
            else OpDelete]"
proof -
  from sum have b: "unat readp \<le> 100" "unat prefixp \<le> 100" "unat writep \<le> 100" "unat delp \<le> 100"
    by linarith+
  have sr: "sint readp = int (unat readp)" and sf: "sint prefixp = int (unat prefixp)"
    and sw: "sint writep = int (unat writep)" and sd: "sint delp = int (unat delp)"
    using b by (simp_all only: sint32_small)
  have s0: "sint prob_op = int (unat prob_op)" using p by (simp only: sint32_small)
  have ip: "int (unat prob_op) < 100" "0 \<le> int (unat prob_op)" using p by linarith+
  have ib: "int (unat readp) \<le> 100" "int (unat prefixp) \<le> 100" "int (unat writep) \<le> 100"
      "0 \<le> int (unat readp)" "0 \<le> int (unat prefixp)" "0 \<le> int (unat writep)"
    using b by linarith+
  have s1: "sint (prob_op - readp) = int (unat prob_op) - int (unat readp)"
    by (rule sint32_sub_percent [OF s0 b(1)]) (use ip ib in linarith)+
  have s2: "sint (prob_op - readp - prefixp) = int (unat prob_op) - int (unat readp) - int (unat prefixp)"
    by (rule sint32_sub_percent [OF s1 b(2)]) (use ip ib in linarith)+
  have s3: "sint (prob_op - readp - prefixp - writep) =
      int (unat prob_op) - int (unat readp) - int (unat prefixp) - int (unat writep)"
    by (rule sint32_sub_percent [OF s2 b(3)]) (use ip ib in linarith)+
  have u: "uint prob_op = int (unat prob_op)" "uint readp = int (unat readp)"
     "uint prefixp = int (unat prefixp)" "uint writep = int (unat writep)"
    by (simp_all only: uint_nat)
  show ?thesis
    unfolding OperateDb_branches_def Let_def in_range_iff [OF b(1)] in_range_iff [OF b(2)]
      in_range_iff [OF b(3)] in_range_iff [OF b(4)] s0 s1 s2 s3 u
    by (rule classify_arith) (use p sum in linarith)+
qed


theorem OperateDb_branches_one_witness:
  "unat (40 :: int32) < 100 \<and>
   unat (10 :: uint32) + unat (25 :: uint32) + unat (50 :: uint32) + unat (15 :: uint32) = 100 \<and>
   OperateDb_branches 10 25 50 15 40 = [OpWrite]"
  using OperateDb_branches_one [of 40 10 25 50 15] by simp

section \<open>Startup validation decides the three constraints\<close>

lemma percent_sum_unat:
  assumes "unat (a :: uint32) \<le> 100" "unat (b :: uint32) \<le> 100" "unat (c :: uint32) \<le> 100"
    "unat (d :: uint32) \<le> 100"
  shows "unat (a + b + c + d) = unat a + unat b + unat c + unat d"
proof -
  have "unat a + unat b + unat c + unat d < 2 ^ 32" using assms by simp
  then have "(unat a + unat b + unat c + unat d) mod 2 ^ 32 = unat a + unat b + unat c + unat d"
    by (rule mod_less)
  moreover have "unat (a + b + c + d) = (unat a + unat b + unat c + unat d) mod 2 ^ 32"
    by (simp add: unat_word_ariths mod_simps)
  ultimately show ?thesis by simp
qed

lemma percent_sum_ne:
  assumes "unat (a :: uint32) \<le> 100" "unat (b :: uint32) \<le> 100" "unat (c :: uint32) \<le> 100"
    "unat (d :: uint32) \<le> 100"
  shows "a + b + c + d \<noteq> 100 \<longleftrightarrow> unat a + unat b + unat c + unat d \<noteq> 100"
proof -
  have "a + b + c + d = 100 \<longleftrightarrow> unat (a + b + c + d) = unat (100 :: uint32)"
    by (simp only: word_unat_eq_iff)
  then show ?thesis by (simp add: percent_sum_unat [OF assms])
qed

lemma validate_flags_decides:
  assumes "unat readp \<le> 100" "unat prefixp \<le> 100" "unat writep \<le> 100" "unat delp \<le> 100"
      and "0 \<le> sint reopen"
  shows "((\<exists>e. validate_flags readp prefixp writep delp disable_wal reopen ops = StartupExit 1 e) \<longleftrightarrow>
            unat readp + unat prefixp + unat writep + unat delp \<noteq> 100 \<or>
            (disable_wal \<and> 0 < sint reopen) \<or>
            uint ops \<le> sint reopen) \<and>
         (validate_flags readp prefixp writep delp disable_wal reopen ops = RunStressTest \<longleftrightarrow>
            unat readp + unat prefixp + unat writep + unat delp = 100 \<and>
            \<not> (disable_wal \<and> 0 < sint reopen) \<and>
            sint reopen < uint ops)"
proof -
  have le: "ops \<le> reopen \<longleftrightarrow> uint ops \<le> sint reopen"
    using assms(5) by (simp add: word_le_def uint_of_nonneg)
  have ne: "readp + prefixp + writep + delp \<noteq> 100 \<longleftrightarrow>
      unat readp + unat prefixp + unat writep + unat delp \<noteq> 100"
    using assms(1-4) by (rule percent_sum_ne)
  have lt: "0 <s reopen \<longleftrightarrow> 0 < sint reopen"
    by (simp add: word_sless_alt)
  show ?thesis
    unfolding validate_flags_def ne le lt by auto
qed

lemma percent_in_range:
  assumes "0 \<le>s (n :: int32) \<and> n \<le>s 100"
  shows "unat n \<le> 100"
proof -
  from assms have s: "0 \<le> sint n" "sint n \<le> 100"
    by (simp_all add: word_sle_eq)
  then have "uint n = sint n" by (simp add: uint_of_nonneg)
  then have "int (unat n) \<le> 100" using s by simp
  then show ?thesis by linarith
qed

lemma set_flag_range:
  assumes "set_flag a f = Some f'"
      and "unat (flag_readpercent f) \<le> 100" "unat (flag_prefixpercent f) \<le> 100"
          "unat (flag_writepercent f) \<le> 100" "unat (flag_delpercent f) \<le> 100"
          "0 \<le> sint (flag_reopen f)"
  shows "unat (flag_readpercent f') \<le> 100 \<and> unat (flag_prefixpercent f') \<le> 100 \<and>
         unat (flag_writepercent f') \<le> 100 \<and> unat (flag_delpercent f') \<le> 100 \<and>
         0 \<le> sint (flag_reopen f')"
proof (cases a)
  case (ArgReadPercent n)
  with assms show ?thesis
    by (auto simp: set_flag_def percent_in_range split: if_splits)
next
  case (ArgPrefixPercent n)
  with assms show ?thesis
    by (auto simp: set_flag_def percent_in_range split: if_splits)
next
  case (ArgWritePercent n)
  with assms show ?thesis
    by (auto simp: set_flag_def percent_in_range split: if_splits)
next
  case (ArgDelPercent n)
  with assms show ?thesis
    by (auto simp: set_flag_def percent_in_range split: if_splits)
next
  case (ArgDisableWal n)
  with assms show ?thesis
    by (auto simp: set_flag_def split: if_splits)
next
  case (ArgReopen n)
  with assms show ?thesis
    by (auto simp: set_flag_def word_sle_eq split: if_splits)
next
  case (ArgOpsPerThread u)
  with assms show ?thesis
    by (auto simp: set_flag_def)
next
  case ArgOther
  with assms show ?thesis
    by (auto simp: set_flag_def)
next
  case ArgUnknown
  with assms show ?thesis
    by (simp add: set_flag_def)
qed

lemma parse_flags_range:
  "parse_flags argv f = Some f' \<Longrightarrow>
     unat (flag_readpercent f) \<le> 100 \<and> unat (flag_prefixpercent f) \<le> 100 \<and>
     unat (flag_writepercent f) \<le> 100 \<and> unat (flag_delpercent f) \<le> 100 \<and>
     0 \<le> sint (flag_reopen f) \<Longrightarrow>
     unat (flag_readpercent f') \<le> 100 \<and> unat (flag_prefixpercent f') \<le> 100 \<and>
     unat (flag_writepercent f') \<le> 100 \<and> unat (flag_delpercent f') \<le> 100 \<and>
     0 \<le> sint (flag_reopen f')"
proof (induction argv arbitrary: f)
  case Nil
  then show ?case by simp
next
  case (Cons a as)
  from Cons.prems(1) obtain g where g: "set_flag a f = Some g" and r: "parse_flags as g = Some f'"
    by (auto split: option.splits)
  from set_flag_range [OF g] Cons.prems(2)
  have "unat (flag_readpercent g) \<le> 100 \<and> unat (flag_prefixpercent g) \<le> 100 \<and>
     unat (flag_writepercent g) \<le> 100 \<and> unat (flag_delpercent g) \<le> 100 \<and>
     0 \<le> sint (flag_reopen g)"
    by blast
  with Cons.IH [OF r] show ?case .
qed

lemma default_flags_range:
  "unat (flag_readpercent default_flags) \<le> 100 \<and> unat (flag_prefixpercent default_flags) \<le> 100 \<and>
   unat (flag_writepercent default_flags) \<le> 100 \<and> unat (flag_delpercent default_flags) \<le> 100 \<and>
   0 \<le> sint (flag_reopen default_flags)"
  by (simp add: default_flags_def)

text \<open>
  C6, amended: \<open>main\<close> exits with code 1 before it constructs and runs the stress test
  when the flag parser rejects an argument; once every argument has been accepted, it exits
  with code 1 before any database work if and only if one of the validity constraints is
  violated on the flags then in force: the four percentages do not sum to exactly 100, or
  the WAL is disabled while \<open>reopen > 0\<close>, or \<open>reopen \<ge> ops_per_thread\<close>; when all
  three constraints hold it goes on to run the stress test.
\<close>

theorem main_startup_exit:
  "(parse_flags argv default_flags = None \<longrightarrow> main_startup argv = StartupExit 1 InvalidFlag) \<and>
   (\<forall>f. parse_flags argv default_flags = Some f \<longrightarrow>
      ((\<exists>e. main_startup argv = StartupExit 1 e) \<longleftrightarrow>
         unat (flag_readpercent f) + unat (flag_prefixpercent f) + unat (flag_writepercent f) +
           unat (flag_delpercent f) \<noteq> 100 \<or>
         (flag_disable_wal f \<and> 0 < sint (flag_reopen f)) \<or>
         uint (flag_ops_per_thread f) \<le> sint (flag_reopen f)) \<and>
      (main_startup argv = RunStressTest \<longleftrightarrow>
         unat (flag_readpercent f) + unat (flag_prefixpercent f) + unat (flag_writepercent f) +
           unat (flag_delpercent f) = 100 \<and>
         \<not> (flag_disable_wal f \<and> 0 < sint (flag_reopen f)) \<and>
         sint (flag_reopen f) < uint (flag_ops_per_thread f)))"
proof (intro conjI impI allI)
  assume "parse_flags argv default_flags = None"
  then show "main_startup argv = StartupExit 1 InvalidFlag"
    by (simp add: main_startup_def)
next
  fix f
  assume p: "parse_flags argv default_flags = Some f"
  have m: "main_startup argv =
      validate_flags (flag_readpercent f) (flag_prefixpercent f) (flag_writepercent f)
        (flag_delpercent f) (flag_disable_wal f) (flag_reopen f) (flag_ops_per_thread f)"
    using p by (simp add: main_startup_def)
  from parse_flags_range [OF p default_flags_range]
  have r: "unat (flag_readpercent f) \<le> 100" "unat (flag_prefixpercent f) \<le> 100"
    "unat (flag_writepercent f) \<le> 100" "unat (flag_delpercent f) \<le> 100"
    "0 \<le> sint (flag_reopen f)"
    by blast+
  note V = validate_flags_decides [OF r, of "flag_disable_wal f" "flag_ops_per_thread f"]
  show "(\<exists>e. main_startup argv = StartupExit 1 e) \<longleftrightarrow>
         unat (flag_readpercent f) + unat (flag_prefixpercent f) + unat (flag_writepercent f) +
           unat (flag_delpercent f) \<noteq> 100 \<or>
         (flag_disable_wal f \<and> 0 < sint (flag_reopen f)) \<or>
         uint (flag_ops_per_thread f) \<le> sint (flag_reopen f)"
    unfolding m by (rule V [THEN conjunct1])
  show "main_startup argv = RunStressTest \<longleftrightarrow>
         unat (flag_readpercent f) + unat (flag_prefixpercent f) + unat (flag_writepercent f) +
           unat (flag_delpercent f) = 100 \<and>
         \<not> (flag_disable_wal f \<and> 0 < sint (flag_reopen f)) \<and>
         sint (flag_reopen f) < uint (flag_ops_per_thread f)"
    unfolding m by (rule V [THEN conjunct2])
qed

text \<open>
  C6, as stated, fails at the command line \<open>--readpercent=200\<close>, and at any argument
  that matches no flag: the process exits with code 1 before any database work, while the
  flags in force, the defaults, satisfy all three constraints.
\<close>

theorem main_startup_invalid_flag_counterexample:
  "main_startup [ArgReadPercent 200] = StartupExit 1 InvalidFlag \<and>
   main_startup [ArgUnknown] = StartupExit 1 InvalidFlag \<and>
   unat (flag_readpercent default_flags) + unat (flag_prefixpercent default_flags) +
     unat (flag_writepercent default_flags) + unat (flag_delpercent default_flags) = 100 \<and>
   \<not> (flag_disable_wal default_flags \<and> 0 < sint (flag_reopen default_flags)) \<and>
   sint (flag_reopen default_flags) < uint (flag_ops_per_thread default_flags)"
  by (simp add: main_startup_def set_flag_def default_flags_def word_sle_eq)

theorem main_startup_exit_witness:
  "main_startup [ArgUnknown] = StartupExit 1 InvalidFlag \<and>
   main_startup [ArgReopen 3, ArgOpsPerThread 10] = RunStressTest \<and>
   (\<exists>e. main_startup [ArgOther, ArgDisableWal 1] = StartupExit 1 e)"
proof -
  have n: "parse_flags [ArgUnknown] default_flags = None"
    by (simp add: set_flag_def word_sle_eq)
  have a: "parse_flags [ArgReopen 3, ArgOpsPerThread 10] default_flags =
      Some (default_flags\<lparr> flag_reopen := 3, flag_ops_per_thread := 10 \<rparr>)"
    by (simp add: set_flag_def word_sle_eq)
  have b: "parse_flags [ArgOther, ArgDisableWal 1] default_flags =
      Some (default_flags\<lparr> flag_disable_wal := True \<rparr>)"
    by (simp add: set_flag_def word_sle_eq)
  have 1: "main_startup [ArgUnknown] = StartupExit 1 InvalidFlag"
    using main_startup_exit [of "[ArgUnknown]", THEN conjunct1] n by blast
  have 2: "main_startup [ArgReopen 3, ArgOpsPerThread 10] = RunStressTest"
    using main_startup_exit [of "[ArgReopen 3, ArgOpsPerThread 10]", THEN conjunct2, rule_format, OF a,
        THEN conjunct2]
    by (simp add: default_flags_def)
  have 3: "\<exists>e. main_startup [ArgOther, ArgDisableWal 1] = StartupExit 1 e"
    using main_startup_exit [of "[ArgOther, ArgDisableWal 1]", THEN conjunct2, rule_format, OF b,
        THEN conjunct1]
    by (simp add: default_flags_def)
  show ?thesis using 1 2 3 by blast
qed

section \<open>The reopen vote counter\<close>

lemma c_rem_nonneg: "0 \<le> a \<Longrightarrow> 0 < b \<Longrightarrow> c_rem a b = Some (a mod b)"
proof -
  assume a: "0 \<le> a" and b: "0 < b"
  have "a - b * (sgn a * sgn b * (\<bar>a\<bar> div \<bar>b\<bar>)) = a mod b"
  proof (cases "a = 0")
    case True
    then show ?thesis by simp
  next
    case False
    then have "sgn a = 1" "sgn b = 1" "\<bar>a\<bar> = a" "\<bar>b\<bar> = b" using a b by simp_all
    then show ?thesis by (simp add: minus_mult_div_eq_mod)
  qed
  then show ?thesis using b by (simp add: c_rem_def)
qed

lemma IncVotedReopen_mod:
  "0 \<le> vote_reopen_' s \<Longrightarrow> 0 < num_threads_' s \<Longrightarrow>
     IncVotedReopen s = Some (s\<lparr> vote_reopen_' := (vote_reopen_' s + 1) mod num_threads_' s \<rparr>)"
  by (simp add: IncVotedReopen_def c_rem_nonneg)





section \<open>How often the database is reopened\<close>

lemma count_multiples:
  "0 < c \<Longrightarrow> length (filter (\<lambda>i. i \<noteq> 0 \<and> i mod c = 0) [0..<n]) = (n - 1) div c"
proof (induction n)
  case 0
  show ?case by simp
next
  case (Suc k)
  have "length (filter (\<lambda>i. i \<noteq> 0 \<and> i mod c = 0) [0..<Suc k]) =
        length (filter (\<lambda>i. i \<noteq> 0 \<and> i mod c = 0) [0..<k]) +
          (if k \<noteq> 0 \<and> k mod c = 0 then 1 else 0)"
    by simp
  also have "\<dots> = (k - 1) div c + (if k \<noteq> 0 \<and> k mod c = 0 then 1 else 0)"
    by (simp only: Suc.IH [OF Suc.prems])
  also have "\<dots> = k div c"
  proof (cases k)
    case 0
    then show ?thesis by simp
  next
    case (Suc j)
    then show ?thesis by (simp add: div_Suc)
  qed
  finally show ?case by simp
qed

lemma votes_at_valid:
  assumes "0 \<le> sint (reopen :: int32)" and "sint reopen < uint (ops :: uint32)"
  shows "votes_at ops reopen i = Some (i \<noteq> 0 \<and> i mod (unat ops div (nat (sint reopen) + 1)) = 0)"
    and "0 < unat ops div (nat (sint reopen) + 1)"
proof -
  have ur: "uint reopen = sint reopen" using assms(1) by (rule uint_of_nonneg)
  have nr: "unat reopen = nat (sint reopen)"
    using unat_eq_nat_uint [of reopen] unfolding ur .
  have "uint reopen < uint ops" using assms(2) unfolding ur .
  then have "reopen < ops" unfolding word_less_def .
  then have lt: "unat reopen < unat ops" unfolding word_less_nat_alt .
  have "unat ops < 2 ^ 32" by (rule order_less_le_trans [OF unsigned_less]) simp
  then have "unat reopen + 1 < 2 ^ 32" using lt by linarith
  then have "(unat reopen + 1) mod 2 ^ 32 = unat reopen + 1" by (rule mod_less)
  then have u1: "unat (reopen + 1) = unat reopen + 1" by (simp add: unat_word_ariths)
  then have nz: "reopen + 1 \<noteq> 0" by (metis unat_0 add_is_0 one_neq_zero)
  have ch: "unat (ops div (reopen + 1)) = unat ops div (nat (sint reopen) + 1)"
    by (simp only: unat_div u1 nr)
  have "nat (sint reopen) + 1 \<le> unat ops" using lt nr by linarith
  then show pos: "0 < unat ops div (nat (sint reopen) + 1)"
    by (simp add: div_greater_zero_iff)
  show "votes_at ops reopen i = Some (i \<noteq> 0 \<and> i mod (unat ops div (nat (sint reopen) + 1)) = 0)"
    using nz pos by (auto simp: votes_at_def ch Let_def)
qed

lemma vote_indices_length:
  assumes "0 \<le> sint (reopen :: int32)" and "sint reopen < uint (ops :: uint32)"
  shows "length (vote_indices ops reopen) =
           (unat ops - 1) div (unat ops div (nat (sint reopen) + 1))"
  unfolding vote_indices_def
  by (simp only: votes_at_valid(1) [OF assms] option.inject simp_thms
        count_multiples [OF votes_at_valid(2) [OF assms]])

lemma int_div_Suc:
  "0 < T \<Longrightarrow> int (Suc n) div T = int n div T + (if int (Suc n) mod T = 0 then 1 else 0)"
proof -
  assume "0 < T"
  then obtain t where T: "T = int t" and t: "0 < t"
    by (metis zero_less_imp_eq_int)
  have "int (Suc n) div int t = int (Suc n div t)" "int n div int t = int (n div t)"
    "int (Suc n) mod int t = int (Suc n mod t)"
    by (simp_all only: zdiv_int zmod_int)
  then show ?thesis unfolding T by (simp add: div_Suc)
qed

lemma votes_count:
  assumes "0 < num_threads_' s0" and "vote_reopen_' s0 = 0"
  shows "votes n (s0, r) =
           Some (s0\<lparr> vote_reopen_' := int n mod num_threads_' s0 \<rparr>, r + int n div num_threads_' s0)"
proof (induction n)
  case 0
  show ?case using assms by simp
next
  case (Suc n)
  let ?T = "num_threads_' s0"
  let ?st = "s0\<lparr> vote_reopen_' := int n mod ?T \<rparr>"
  have "0 \<le> vote_reopen_' ?st" "0 < num_threads_' ?st" using assms by simp_all
  then have inc: "IncVotedReopen ?st =
      Some (?st\<lparr> vote_reopen_' := (vote_reopen_' ?st + 1) mod num_threads_' ?st \<rparr>)"
    by (rule IncVotedReopen_mod)
  have m: "(int n mod ?T + 1) mod ?T = int (Suc n) mod ?T"
    by (simp add: mod_simps add.commute)
  have d: "int (Suc n) div ?T = int n div ?T + (if int (Suc n) mod ?T = 0 then 1 else 0)"
    using assms(1) by (rule int_div_Suc)
  have "vote (?st, r + int n div ?T) =
      Some (s0\<lparr> vote_reopen_' := int (Suc n) mod ?T \<rparr>, r + int (Suc n) div ?T)"
    unfolding vote_def using inc m d by (simp add: AllVotedReopen_def)
  then show ?case by (simp add: Suc.IH)
qed

lemma reopen_events_eq:
  assumes "0 < FLAGS_threads" and "0 \<le> sint (reopen :: int32)" and "sint reopen < uint (ops :: uint32)"
  shows "reopen_events FLAGS_threads ops reopen =
           Some (int ((unat ops - 1) div (unat ops div (nat (sint reopen) + 1))))"
proof -
  let ?init = "new_SharedState 0 0 0 FLAGS_threads True"
  let ?V = "(unat ops - 1) div (unat ops div (nat (sint reopen) + 1))"
  have T: "num_threads_' ?init = FLAGS_threads" and v0: "vote_reopen_' ?init = 0"
    by (simp_all add: new_SharedState_def)
  have "int (nat FLAGS_threads * ?V) div FLAGS_threads = int ?V"
    using assms(1) by simp
  then show ?thesis
    unfolding reopen_events_def vote_indices_length [OF assms(2,3)]
    using votes_count [of ?init "nat FLAGS_threads * ?V" 0] assms(1) T v0 by simp
qed

text \<open>
  C3, where the code departs from it: with the default flags (32 threads, 600000 operations
  per thread, reopen = 10) the chunk is \<open>600000 div 11 = 54545\<close>, a thread votes at the
  eleven multiples of 54545 below 600000, and the database is reopened 11 times, not 10.
  With 10 operations per thread and reopen = 3 the votes are at 2, 4, 6 and 8, and two
  threads reopen the database 4 times, not 3.
\<close>

theorem reopen_events_exceed_reopen:
  "reopen_events 32 600000 10 = Some 11 \<and>
   vote_indices 10 3 = [2, 4, 6, 8] \<and>
   reopen_events 2 10 3 = Some 4"
proof -
  have a: "reopen_events 32 600000 10 = Some 11"
    by (subst reopen_events_eq) simp_all
  have b: "vote_indices 10 3 = [2, 4, 6, 8]"
    by (simp add: vote_indices_def votes_at_def upt_rec)
  have c: "reopen_events 2 10 3 = Some 4"
    by (subst reopen_events_eq) simp_all
  show ?thesis using a b c by simp
qed

section \<open>The progress report schedule\<close>

lemma next_threshold_Some:
  "t \<le> 2147383647 \<Longrightarrow>
     next_threshold t =
       Some (t + (if t < 1000 then 100 else if t < 5000 then 500 else if t < 10000 then 1000
                  else if t < 50000 then 5000 else if t < 100000 then 10000
                  else if t < 500000 then 50000 else 100000))"
  by (simp add: next_threshold_def add_int_def)

lemma FinishedSingleOp_step:
  assumes "done_' s < next_report_' s" and "done_' s \<le> 2147383646"
      and "next_report_' s \<le> done_' s + 100000"
  shows "\<exists>s' out'. FinishedSingleOp h now (s, out) = Some (s', out') \<and>
           done_' s' = done_' s + 1 \<and>
           next_report_' s' =
             (if done_' s + 1 = next_report_' s
              then next_report_' s +
                (if next_report_' s < 1000 then 100 else if next_report_' s < 5000 then 500
                 else if next_report_' s < 10000 then 1000 else if next_report_' s < 50000 then 5000
                 else if next_report_' s < 100000 then 10000
                 else if next_report_' s < 500000 then 50000 else 100000)
              else next_report_' s) \<and>
           filter is_progress out' =
             filter is_progress out @
               (if done_' s + 1 = next_report_' s then [FinishedOps (done_' s + 1)] else [])"
proof -
  define s1 where "s1 = (if h then s\<lparr> hist_' := hist_' s @ [now - last_op_finish_' s],
                                     last_op_finish_' := now \<rparr> else s)"
  define out1 where "out1 = (if h \<and> now - last_op_finish_' s > 20000
                             then out @ [LongOp (now - last_op_finish_' s)] else out)"
  define s2 where "s2 = s1\<lparr> done_' := done_' s1 + 1 \<rparr>"
  have d2: "done_' s2 = done_' s + 1" and n2: "next_report_' s2 = next_report_' s"
    by (simp_all add: s2_def s1_def)
  have o1: "filter is_progress out1 = filter is_progress out"
    by (simp add: out1_def)
  have F: "FinishedSingleOp h now (s, out) =
      (if done_' s2 \<ge> next_report_' s2
       then (case next_threshold (next_report_' s2) of
               None \<Rightarrow> None
             | Some n \<Rightarrow> Some (s2\<lparr> next_report_' := n \<rparr>, out1 @ [FinishedOps (done_' s2)]))
       else Some (s2, out1))"
    unfolding FinishedSingleOp_def Let_def s1_def s2_def out1_def
    by (cases h; cases "now - last_op_finish_' s > 20000") (simp_all split: option.splits)
  show ?thesis
  proof (cases "done_' s + 1 = next_report_' s")
    case True
    then have "next_report_' s \<le> 2147383647" using assms(2) by linarith
    then have nt: "next_threshold (next_report_' s) =
       Some (next_report_' s + (if next_report_' s < 1000 then 100 else if next_report_' s < 5000 then 500
                 else if next_report_' s < 10000 then 1000 else if next_report_' s < 50000 then 5000
                 else if next_report_' s < 100000 then 10000
                 else if next_report_' s < 500000 then 50000 else 100000))"
      by (rule next_threshold_Some)
    show ?thesis
      using True o1 d2 n2 by (simp add: F nt)
  next
    case False
    then have "\<not> done_' s + 1 \<ge> next_report_' s" using assms(1) by linarith
    then show ?thesis
      using False o1 d2 n2 by (simp add: F)
  qed
qed

lemma finished_ops_invariant:
  "int n \<le> 2147383647 \<Longrightarrow>
     \<exists>s out. finished_ops h clock s0 n = Some (s, out) \<and> done_' s = int n \<and>
       int n < next_report_' s \<and> next_report_' s \<le> int n + 100000 \<and>
       (n = 0 \<longrightarrow> next_report_' s = 100)"
proof (induction n)
  case 0
  show ?case by (simp add: Start_def)
next
  case (Suc n)
  then obtain s out where run: "finished_ops h clock s0 n = Some (s, out)"
    and d: "done_' s = int n" and lo: "int n < next_report_' s"
    and hi: "next_report_' s \<le> int n + 100000"
    by auto
  have b: "done_' s \<le> 2147383646" using Suc.prems d by simp
  from FinishedSingleOp_step [of s h "clock (Suc n)" out] lo hi b d
  obtain s' out' where st: "FinishedSingleOp h (clock (Suc n)) (s, out) = Some (s', out')"
    and d': "done_' s' = int n + 1"
    and n': "next_report_' s' =
             (if int n + 1 = next_report_' s
              then next_report_' s +
                (if next_report_' s < 1000 then 100 else if next_report_' s < 5000 then 500
                 else if next_report_' s < 10000 then 1000 else if next_report_' s < 50000 then 5000
                 else if next_report_' s < 100000 then 10000
                 else if next_report_' s < 500000 then 50000 else 100000)
              else next_report_' s)"
    by auto
  have "int (Suc n) < next_report_' s'" "next_report_' s' \<le> int (Suc n) + 100000"
    unfolding n' using lo hi by (auto split: if_splits)
  then show ?case using run st d' by simp
qed

text \<open>
  C9, amended: after \<open>Start\<close> the first report threshold is 100; \<open>FinishedSingleOp\<close>
  prints a progress line exactly when the count of completed operations reaches the
  current threshold, and the count is below the threshold at every other time; the
  threshold then grows by 100 while it is below 1000, by 500 while it is below 5000, by
  1000 while it is below 10000, by 5000 while it is below 50000, by 10000 while it is below
  100000, by 50000 while it is below 500000, and by 100000 from then on. (The count is
  taken below the point where \<open>next_report_\<close> would leave the range of \<open>int\<close>.)
\<close>

theorem FinishedSingleOp_schedule:
  assumes "int n \<le> 2147383646"
  shows "\<exists>s out s' out'.
     finished_ops h clock s0 n = Some (s, out) \<and>
     finished_ops h clock s0 (Suc n) = Some (s', out') \<and>
     done_' s = int n \<and> done_' s' = int n + 1 \<and>
     (n = 0 \<longrightarrow> next_report_' s = 100) \<and>
     done_' s < next_report_' s \<and>
     filter is_progress out' =
       filter is_progress out @
         (if done_' s' = next_report_' s then [FinishedOps (done_' s')] else []) \<and>
     next_report_' s' =
       (if done_' s' = next_report_' s
        then next_report_' s +
          (if next_report_' s < 1000 then 100 else if next_report_' s < 5000 then 500
           else if next_report_' s < 10000 then 1000 else if next_report_' s < 50000 then 5000
           else if next_report_' s < 100000 then 10000
           else if next_report_' s < 500000 then 50000 else 100000)
        else next_report_' s)"
proof -
  have "int n \<le> 2147383647" using assms by simp
  from finished_ops_invariant [OF this, of h clock s0]
  obtain s out where run: "finished_ops h clock s0 n = Some (s, out)"
    and d: "done_' s = int n" and lo: "int n < next_report_' s"
    and hi: "next_report_' s \<le> int n + 100000"
    and first: "n = 0 \<longrightarrow> next_report_' s = 100"
    by auto
  have b: "done_' s \<le> 2147383646" using assms d by simp
  from FinishedSingleOp_step [of s h "clock (Suc n)" out] lo hi b d
  obtain s' out' where st: "FinishedSingleOp h (clock (Suc n)) (s, out) = Some (s', out')"
    and rest: "done_' s' = done_' s + 1 \<and>
           next_report_' s' =
             (if done_' s + 1 = next_report_' s
              then next_report_' s +
                (if next_report_' s < 1000 then 100 else if next_report_' s < 5000 then 500
                 else if next_report_' s < 10000 then 1000 else if next_report_' s < 50000 then 5000
                 else if next_report_' s < 100000 then 10000
                 else if next_report_' s < 500000 then 50000 else 100000)
              else next_report_' s) \<and>
           filter is_progress out' =
             filter is_progress out @
               (if done_' s + 1 = next_report_' s then [FinishedOps (done_' s + 1)] else [])"
    by auto
  have run': "finished_ops h clock s0 (Suc n) = Some (s', out')"
    using run st by simp
  from rest have d': "done_' s' = done_' s + 1" by simp
  show ?thesis
    apply (rule exI [of _ s], rule exI [of _ out], rule exI [of _ s'], rule exI [of _ out'])
    using run run' d first lo rest unfolding d' by simp
qed

text \<open>
  C9, as stated, has the bump size change to 500 at op count 500, so that the threshold
  after 500 would be 1000. After 500 operations the code's threshold is 600: the bump size
  is still 100.
\<close>

theorem FinishedSingleOp_bump_counterexample:
  "map_option (next_report_' \<circ> fst) (finished_ops False no_clock no_stats 500) = Some 600 \<and>
   500 + spec_bump 500 = 1000"
proof -
  have "map_option (next_report_' \<circ> fst) (finished_ops False no_clock no_stats 500) = Some 600"
    by code_simp
  then show ?thesis by (simp add: spec_bump_def)
qed


theorem FinishedSingleOp_schedule_witness:
  "int 99 \<le> 2147383646 \<and>
   (\<exists>s' out'. finished_ops False no_clock no_stats (Suc 99) = Some (s', out') \<and>
      done_' s' = 100 \<and> next_report_' s' = 200 \<and> filter is_progress out' = [FinishedOps 100])"
proof -
  have h: "int 99 \<le> 2147383646" by simp
  have r: "map_option (\<lambda>st. (next_report_' (fst st), filter is_progress (snd st)))
             (finished_ops False no_clock no_stats 99) = Some (100, [])"
    by code_simp
  from FinishedSingleOp_schedule [OF h, of False no_clock no_stats]
  obtain s out s' out' where
    a: "finished_ops False no_clock no_stats 99 = Some (s, out)" and
    b: "finished_ops False no_clock no_stats (Suc 99) = Some (s', out')" and
    d: "done_' s' = int 99 + 1" and
    p: "filter is_progress out' =
          filter is_progress out @
            (if done_' s' = next_report_' s then [FinishedOps (done_' s')] else [])" and
    t: "next_report_' s' =
       (if done_' s' = next_report_' s
        then next_report_' s +
          (if next_report_' s < 1000 then 100 else if next_report_' s < 5000 then 500
           else if next_report_' s < 10000 then 1000 else if next_report_' s < 50000 then 5000
           else if next_report_' s < 100000 then 10000
           else if next_report_' s < 500000 then 50000 else 100000)
        else next_report_' s)"
    by blast
  from r a have n: "next_report_' s = 100" and o: "filter is_progress out = []" by simp_all
  have "done_' s' = 100" using d by simp
  moreover from this have "next_report_' s' = 200" using t n by simp
  moreover have "filter is_progress out' = [FinishedOps 100]" using p n o \<open>done_' s' = 100\<close> by simp
  ultimately show ?thesis using h b by blast
qed

section \<open>What the verifier accepts and rejects\<close>

text \<open>
  C1: for a key in \<open>[0, max_key)\<close> with shadow base \<open>Get shared key\<close>: when the base
  is SENTINEL and \<open>strict\<close> is false, VerifyValue returns without a call to the
  database. Otherwise it calls \<open>Get\<close> once. If that returns OK, the check passes only
  when the base is not SENTINEL and the value read has the length and the bytes of
  \<open>GenerateValue\<close> of the base; if it does not return OK, the check passes only when
  the base is SENTINEL. Every violation ends in \<open>VerificationAbort\<close>, which prints the
  key with a message and exits the process with status 1.
\<close>

theorem VerifyValue_checks:
  assumes "0 \<le> sint key" and "sint key < int (length (values_' shared))"
  shows
  "(Get shared key = SENTINEL \<and> \<not> strict \<longrightarrow>
      VerifyValue host m buf db shared key vfd strict = Returned (db, vfd)) \<and>
   (\<not> (Get shared key = SENTINEL \<and> \<not> strict) \<longrightarrow>
      (\<forall>st v. db_get db (Key key) = (st, v) \<longrightarrow>
         (st = OK \<and> Get shared key = SENTINEL \<longrightarrow>
            VerifyValue host m buf db shared key vfd strict =
              Exited 1 (VerificationFailed (sint key) ''Unexpected value found'')) \<and>
         (st = OK \<and> Get shared key \<noteq> SENTINEL \<longrightarrow>
            (\<forall>sz gen. GenerateValue host m (Get shared key) buf 100 = Generated sz gen \<longrightarrow>
               (length v = sz \<and> v = take sz gen \<longrightarrow>
                  VerifyValue host m buf db shared key vfd strict =
                    Returned (db\<lparr> db_trace := db_trace db @ [CallGet (Key key)] \<rparr>, v)) \<and>
               (\<not> (length v = sz \<and> v = take sz gen) \<longrightarrow>
                  (\<exists>msg. VerifyValue host m buf db shared key vfd strict =
                     Exited 1 (VerificationFailed (sint key) msg))))) \<and>
         (st \<noteq> OK \<and> Get shared key = SENTINEL \<longrightarrow>
            VerifyValue host m buf db shared key vfd strict =
              Returned (db\<lparr> db_trace := db_trace db @ [CallGet (Key key)] \<rparr>, vfd)) \<and>
         (st \<noteq> OK \<and> Get shared key \<noteq> SENTINEL \<longrightarrow>
            VerifyValue host m buf db shared key vfd strict =
              Exited 1 (VerificationFailed (sint key) ''Value not found'')))) \<and>
   (\<forall>db' v'. VerifyValue host m buf db shared key vfd strict = Returned (db', v') \<longrightarrow>
      (Get shared key = SENTINEL \<and> \<not> strict \<and> db' = db) \<or>
      (db_trace db' = db_trace db @ [CallGet (Key key)] \<and>
       (fst (db_get db (Key key)) = OK \<longrightarrow>
          Get shared key \<noteq> SENTINEL \<and>
          (\<exists>sz gen. GenerateValue host m (Get shared key) buf 100 = Generated sz gen \<and>
             length (snd (db_get db (Key key))) = sz \<and>
             snd (db_get db (Key key)) = take sz gen)) \<and>
       (fst (db_get db (Key key)) \<noteq> OK \<longrightarrow> Get shared key = SENTINEL)))"
proof (intro conjI impI allI)
  assume "Get shared key = SENTINEL \<and> \<not> strict"
  then show "VerifyValue host m buf db shared key vfd strict = Returned (db, vfd)"
    by (simp add: VerifyValue_def Let_def)
next
  fix st v
  assume n: "\<not> (Get shared key = SENTINEL \<and> \<not> strict)" and g: "db_get db (Key key) = (st, v)"
    and c: "st = OK \<and> Get shared key = SENTINEL"
  show "VerifyValue host m buf db shared key vfd strict =
          Exited 1 (VerificationFailed (sint key) ''Unexpected value found'')"
    using n g c by (simp add: VerifyValue_def Let_def DB_Get_def ok_def VerificationAbort_def)
next
  fix st v sz gen
  assume n: "\<not> (Get shared key = SENTINEL \<and> \<not> strict)" and g: "db_get db (Key key) = (st, v)"
    and c: "st = OK \<and> Get shared key \<noteq> SENTINEL"
    and gv: "GenerateValue host m (Get shared key) buf 100 = Generated sz gen"
    and eq: "length v = sz \<and> v = take sz gen"
  have l: "length v = sz" using eq by (rule conjunct1)
  have tv: "take sz v = take sz gen" using eq by simp
  show "VerifyValue host m buf db shared key vfd strict =
          Returned (db\<lparr> db_trace := db_trace db @ [CallGet (Key key)] \<rparr>, v)"
    using n g c gv l tv by (simp add: VerifyValue_def Let_def DB_Get_def ok_def)
next
  fix st v sz gen
  assume n: "\<not> (Get shared key = SENTINEL \<and> \<not> strict)" and g: "db_get db (Key key) = (st, v)"
    and c: "st = OK \<and> Get shared key \<noteq> SENTINEL"
    and gv: "GenerateValue host m (Get shared key) buf 100 = Generated sz gen"
    and ne: "\<not> (length v = sz \<and> v = take sz gen)"
  show "\<exists>msg. VerifyValue host m buf db shared key vfd strict =
          Exited 1 (VerificationFailed (sint key) msg)"
  proof (cases "length v = sz")
    case False
    then show ?thesis
      using n g c gv by (simp add: VerifyValue_def Let_def DB_Get_def ok_def VerificationAbort_def)
  next
    case True
    then have "take sz v = v" by simp
    with True ne have "take sz v \<noteq> take sz gen" by simp
    then show ?thesis
      using True n g c gv by (simp add: VerifyValue_def Let_def DB_Get_def ok_def VerificationAbort_def)
  qed
next
  fix st v
  assume n: "\<not> (Get shared key = SENTINEL \<and> \<not> strict)" and g: "db_get db (Key key) = (st, v)"
    and c: "st \<noteq> OK \<and> Get shared key = SENTINEL"
  show "VerifyValue host m buf db shared key vfd strict =
          Returned (db\<lparr> db_trace := db_trace db @ [CallGet (Key key)] \<rparr>, vfd)"
    using n g c by (simp add: VerifyValue_def Let_def DB_Get_def ok_def)
next
  fix st v
  assume n: "\<not> (Get shared key = SENTINEL \<and> \<not> strict)" and g: "db_get db (Key key) = (st, v)"
    and c: "st \<noteq> OK \<and> Get shared key \<noteq> SENTINEL"
  show "VerifyValue host m buf db shared key vfd strict =
          Exited 1 (VerificationFailed (sint key) ''Value not found'')"
    using n g c by (simp add: VerifyValue_def Let_def DB_Get_def ok_def VerificationAbort_def)
next
  fix db' v'
  assume r: "VerifyValue host m buf db shared key vfd strict = Returned (db', v')"
  obtain st v where g: "db_get db (Key key) = (st, v)" by (cases "db_get db (Key key)")
  show "(Get shared key = SENTINEL \<and> \<not> strict \<and> db' = db) \<or>
      (db_trace db' = db_trace db @ [CallGet (Key key)] \<and>
       (fst (db_get db (Key key)) = OK \<longrightarrow>
          Get shared key \<noteq> SENTINEL \<and>
          (\<exists>sz gen. GenerateValue host m (Get shared key) buf 100 = Generated sz gen \<and>
             length (snd (db_get db (Key key))) = sz \<and>
             snd (db_get db (Key key)) = take sz gen)) \<and>
       (fst (db_get db (Key key)) \<noteq> OK \<longrightarrow> Get shared key = SENTINEL))"
  proof (cases "Get shared key = SENTINEL \<and> \<not> strict")
    case True
    then show ?thesis using r by (simp add: VerifyValue_def Let_def)
  next
    case False
    show ?thesis
    proof (cases "st = OK")
      case ok: True
      show ?thesis
      proof (cases "GenerateValue host m (Get shared key) buf 100")
        case (Generated sz gen)
        from r False g ok Generated have b: "Get shared key \<noteq> SENTINEL"
          by (auto simp: VerifyValue_def Let_def DB_Get_def ok_def VerificationAbort_def split: if_splits)
        from r False g ok Generated b have l: "length v = sz" and t: "take sz v = take sz gen"
          and d: "db' = db\<lparr> db_trace := db_trace db @ [CallGet (Key key)] \<rparr>"
          by (auto simp: VerifyValue_def Let_def DB_Get_def ok_def VerificationAbort_def split: if_splits)
        from l t have "v = take sz gen" by simp
        then show ?thesis using False g ok Generated b l d by simp
      next
        case AssertionFailed
        with r False g ok show ?thesis
          by (auto simp: VerifyValue_def Let_def DB_Get_def ok_def VerificationAbort_def split: if_splits)
      next
        case OutOfBounds
        with r False g ok show ?thesis
          by (auto simp: VerifyValue_def Let_def DB_Get_def ok_def VerificationAbort_def split: if_splits)
      qed
    next
      case nok: False
      with r False g show ?thesis
        by (auto simp: VerifyValue_def Let_def DB_Get_def ok_def VerificationAbort_def split: if_splits)
    qed
  qed
qed


theorem VerifyValue_checks_witness:
  "0 \<le> sint (1 :: long) \<and>
   sint (1 :: long) < int (length (values_' ((new_SharedState 0 2 2 1 False)\<lparr> values_' := [SENTINEL, 5] \<rparr>))) \<and>
   VerifyValue LittleEndian 8 (replicate 100 0)
       \<lparr> db_get = (\<lambda>k. (OK, u32_bytes LittleEndian 5 @ map (value_byte 5) [4..<24])), db_write = (\<lambda>b. OK), db_trace = [] \<rparr>
       ((new_SharedState 0 2 2 1 False)\<lparr> values_' := [SENTINEL, 5] \<rparr>) 1 [] True =
     Returned (\<lparr> db_get = (\<lambda>k. (OK, u32_bytes LittleEndian 5 @ map (value_byte 5) [4..<24])), db_write = (\<lambda>b. OK), db_trace = [] \<rparr>
                 \<lparr> db_trace := [CallGet (Key 1)] \<rparr>,
               u32_bytes LittleEndian 5 @ map (value_byte 5) [4..<24]) \<and>
   VerifyValue LittleEndian 8 (replicate 100 0)
       \<lparr> db_get = (\<lambda>k. (NotFound, [])), db_write = (\<lambda>b. OK), db_trace = [] \<rparr>
       ((new_SharedState 0 2 2 1 False)\<lparr> values_' := [SENTINEL, 5] \<rparr>) 1 [] True =
     Exited 1 (VerificationFailed 1 ''Value not found'')"
proof -
  let ?S = "(new_SharedState 0 2 2 1 False)\<lparr> values_' := [SENTINEL, 5] \<rparr>"
  let ?V = "u32_bytes LittleEndian 5 @ map (value_byte 5) [4..<24]"
  let ?D = "\<lparr> db_get = (\<lambda>k. (OK, u32_bytes LittleEndian 5 @ map (value_byte 5) [4..<24])), db_write = (\<lambda>b. OK), db_trace = [] \<rparr>"
  let ?E = "\<lparr> db_get = (\<lambda>k. (NotFound, [])), db_write = (\<lambda>b. OK), db_trace = [] \<rparr>"
  have k: "0 \<le> sint (1 :: long)" "sint (1 :: long) < int (length (values_' ?S))"
    by simp_all
  have base: "Get ?S 1 = 5" by (simp add: Get_def)
  have ns: "(5 :: uint32) \<noteq> SENTINEL" by (simp add: SENTINEL_def)
  have gv: "GenerateValue LittleEndian 8 (Get ?S 1) (replicate 100 0) 100 =
      Generated 24 (?V @ 0 # replicate 75 0)"
    unfolding base by (simp add: GenerateValue_eq)
  have len: "length ?V = 24 \<and> ?V = take 24 (?V @ 0 # replicate 75 0)"
    by (simp add: length_u32_bytes)
  have n: "\<not> (Get ?S 1 = SENTINEL \<and> \<not> True)" by simp
  have gD: "db_get ?D (Key 1) = (OK, ?V)" by simp
  have gE: "db_get ?E (Key 1) = (NotFound, [])" by simp
  have c1: "OK = OK \<and> Get ?S 1 \<noteq> SENTINEL" using base ns by simp
  have c2: "NotFound \<noteq> OK \<and> Get ?S 1 \<noteq> SENTINEL" using base ns by simp
  note T1 = VerifyValue_checks [OF k, of True LittleEndian 8 "replicate 100 0" ?D "[]",
      THEN conjunct2, THEN conjunct1, rule_format, OF n gD]
  note T2 = VerifyValue_checks [OF k, of True LittleEndian 8 "replicate 100 0" ?E "[]",
      THEN conjunct2, THEN conjunct1, rule_format, OF n gE]
  have a: "VerifyValue LittleEndian 8 (replicate 100 0) ?D ?S 1 [] True =
      Returned (?D\<lparr> db_trace := db_trace ?D @ [CallGet (Key 1)] \<rparr>, ?V)"
    by (rule T1 [THEN conjunct2, THEN conjunct1, rule_format, OF c1 gv, THEN conjunct1, rule_format, OF len])
  have b: "VerifyValue LittleEndian 8 (replicate 100 0) ?E ?S 1 [] True =
      Exited 1 (VerificationFailed (sint (1 :: long)) ''Value not found'')"
    by (rule T2 [THEN conjunct2, THEN conjunct2, THEN conjunct2, rule_format, OF c2])
  show ?thesis using k a b by simp
qed


section \<open>The batch of MultiPut\<close>

lemma MultiPut_batch:
  "foldl (MultiPut_step use_merge key val) [] [0..<10] =
     map (\<lambda>d. if use_merge then BatchMerge (of_char d # key) (of_char d # val)
               else BatchPut (of_char d # key) (of_char d # val)) ''9876543210''"
  by (cases use_merge) (simp_all add: MultiPut_step_def lane_digits_def upt_rec [of _ 10] upt_rec [of _ "numeral n" for n])

text \<open>
  C8: for every key \<open>K\<close> and value \<open>V\<close>, MultiPut makes exactly one \<open>Write\<close> call on
  the database, with a batch of exactly ten entries, one for each lane digit \<open>d\<close> of
  \<open>"0"\<close> to \<open>"9"\<close> (in the order 9 down to 0); the entry for \<open>d\<close> puts, or merges
  when \<open>use_merge_put\<close> is set, the key \<open>d + K\<close> with the value \<open>d + V\<close>, the same
  digit in both.
\<close>

theorem MultiPut_lanes:
  "db_trace (fst (snd (MultiPut use_merge ToString db stats key val sz))) =
     db_trace db @
       [CallWrite (map (\<lambda>d. if use_merge then BatchMerge (of_char d # key) (of_char d # val)
                              else BatchPut (of_char d # key) (of_char d # val)) ''9876543210'')] \<and>
   length (map (\<lambda>d. if use_merge then BatchMerge (of_char d # key) (of_char d # val)
                      else BatchPut (of_char d # key) (of_char d # val)) ''9876543210'') = 10 \<and>
   distinct ''9876543210'' \<and> set ''9876543210'' = set ''0123456789''"
proof -
  have "db_trace (fst (snd (MultiPut use_merge ToString db stats key val sz))) =
     db_trace db @ [CallWrite (foldl (MultiPut_step use_merge key val) [] [0..<10])]"
    by (simp add: MultiPut_def DB_Write_def Let_def)
  moreover have "set ''9876543210'' = set ''0123456789''" by auto
  ultimately show ?thesis by (simp add: MultiPut_batch)
qed


theorem MultiPut_lanes_witness:
  "db_trace (fst (snd (MultiPut False (\<lambda>s. [])
       \<lparr> db_get = (\<lambda>k. (NotFound, [])), db_write = (\<lambda>b. OK), db_trace = [] \<rparr>
       no_stats [65] [66] 1))) =
     [CallWrite [BatchPut [57, 65] [57, 66], BatchPut [56, 65] [56, 66], BatchPut [55, 65] [55, 66],
                 BatchPut [54, 65] [54, 66], BatchPut [53, 65] [53, 66], BatchPut [52, 65] [52, 66],
                 BatchPut [51, 65] [51, 66], BatchPut [50, 65] [50, 66], BatchPut [49, 65] [49, 66],
                 BatchPut [48, 65] [48, 66]]]"
  using MultiPut_lanes [of False "\<lambda>s. []"
      "\<lparr> db_get = (\<lambda>k. (NotFound, [])), db_write = (\<lambda>b. OK), db_trace = [] \<rparr>"
      no_stats "[65]" "[66]" 1]
  by simp

end
